theory Spec2Isabelle
  imports Main "HOL-Library.Word" "HOL-Library.Monad_Syntax"
begin

section \<open>Data model of ca.cu\<close>

text \<open>
  \<^verbatim>\<open>#define XSIZE 1024\<close>, \<^verbatim>\<open>typedef char State;\<close> and
  \<^verbatim>\<open>typedef State Line[XSIZE + 2];\<close>.  A cell is one byte; where the code adds
  cells, each is promoted to \<^verbatim>\<open>int\<close> (\<open>sint\<close>).
\<close>

definition XSIZE :: int where
  "XSIZE = 1024"

type_synonym State = "8 word"

text \<open>
  A \<^verbatim>\<open>Line *\<close> that points to \<open>nrows\<close> allocated lines.  A cell is addressed as
  \<open>(row, column)\<close>, as \<^verbatim>\<open>buf[row][column]\<close>.  Reading or writing a cell outside the
  allocation is undefined behaviour in C; the model returns \<open>None\<close> there, and \<open>None\<close>
  is passed on by everything that follows.
\<close>

record buffer =
  nrows :: int
  cells :: "int \<times> int \<Rightarrow> State"

definition in_buffer :: "buffer \<Rightarrow> int \<times> int \<Rightarrow> bool" where
  "in_buffer b p = (0 \<le> fst p \<and> fst p < nrows b \<and> 0 \<le> snd p \<and> snd p < XSIZE + 2)"

definition rd :: "buffer \<Rightarrow> int \<times> int \<Rightarrow> State option" where
  "rd b p = (if in_buffer b p then Some (cells b p) else None)"

definition wr :: "buffer \<Rightarrow> int \<times> int \<Rightarrow> State \<Rightarrow> buffer option" where
  "wr b p v = (if in_buffer b p then Some (b\<lparr>cells := (cells b)(p := v)\<rparr>) else None)"

text \<open>The C assignment \<^verbatim>\<open>buf[d] = buf[s]\<close> on one buffer.\<close>

definition assign :: "buffer \<Rightarrow> int \<times> int \<Rightarrow> int \<times> int \<Rightarrow> buffer option" where
  "assign b d s = do { v \<leftarrow> rd b s; wr b d v }"

section \<open>Threads and kernel launches\<close>

text \<open>
  A \<^verbatim>\<open>dim3\<close> with its \<open>x\<close> and \<open>y\<close> components (\<open>z\<close> is 1 throughout).  A thread
  is identified by its \<^verbatim>\<open>blockIdx\<close> and \<^verbatim>\<open>threadIdx\<close>.
\<close>

type_synonym dim3 = "nat \<times> nat"
type_synonym thread = "dim3 \<times> dim3"

text \<open>All threads of a launch \<^verbatim>\<open><<<grid, block>>>\<close>.\<close>

definition grid_threads :: "dim3 \<Rightarrow> dim3 \<Rightarrow> thread list" where
  "grid_threads g b =
     List.product (List.product [0..<fst g] [0..<snd g]) (List.product [0..<fst b] [0..<snd b])"

text \<open>
  The threads of a launch run in parallel.  The model runs the thread bodies one after
  the other in the order of a schedule, which is any list that holds every thread of the
  launch exactly once; a property of a launch is stated for every schedule.
\<close>

definition schedule_of :: "dim3 \<Rightarrow> dim3 \<Rightarrow> thread list \<Rightarrow> bool" where
  "schedule_of g b sched = (distinct sched \<and> set sched = set (grid_threads g b))"

fun launch :: "('t \<Rightarrow> 's \<Rightarrow> 's option) \<Rightarrow> 't list \<Rightarrow> 's \<Rightarrow> 's option" where
  "launch body [] s = Some s"
| "launch body (t # ts) s = (case body t s of None \<Rightarrow> None | Some s' \<Rightarrow> launch body ts s')"

section \<open>The kernels\<close>

text \<open>
  \<^verbatim>\<open>__global__ static void boundary(Line *buf, int lines)\<close>: the body of one thread.
\<close>

definition boundary :: "dim3 \<Rightarrow> dim3 \<Rightarrow> dim3 \<Rightarrow> buffer \<Rightarrow> int \<Rightarrow> buffer option" where
  "boundary blockDim blockIdx threadIdx buf lines =
     (let y = int (snd blockIdx * snd blockDim + snd threadIdx);
          x = int (fst blockIdx * fst blockDim + fst threadIdx)
      in do {
        buf \<leftarrow> (if y = lines - 1 then assign buf (y + 2, x + 1) (1, x + 1) else Some buf);
        buf \<leftarrow> (if y = 0 then assign buf (y, x + 1) (lines, x + 1) else Some buf);
        buf \<leftarrow> (if x = 0 then assign buf (y + 1, x) (y + 1, XSIZE) else Some buf);
        buf \<leftarrow> (if x = XSIZE - 1 then assign buf (y + 1, x + 2) (y + 1, 1) else Some buf);
        (if x = 0 \<and> y = 0 then do {
           buf \<leftarrow> assign buf (0, 0) (lines, XSIZE);
           buf \<leftarrow> assign buf (0, XSIZE + 1) (lines, 1);
           buf \<leftarrow> assign buf (lines + 1, 0) (1, XSIZE);
           assign buf (lines + 1, XSIZE + 1) (1, 1)
         } else Some buf)
      })"

text \<open>
  \<^verbatim>\<open>static State anneal[10] = {0, 0, 0, 0, 1, 0, 1, 1, 1, 1};\<close>  An index outside
  the table is out of bounds.
\<close>

definition anneal :: "State list" where
  "anneal = [0, 0, 0, 0, 1, 0, 1, 1, 1, 1]"

definition anneal_at :: "int \<Rightarrow> State option" where
  "anneal_at i = (if 0 \<le> i \<and> i < 10 then Some (anneal ! nat i) else None)"

text \<open>
  \<^verbatim>\<open>__global__ void simulate(Line *from, Line *to, int lines)\<close>: the body of one
  thread.  The two pointers are different allocations at the kernel's only call, so the
  body takes two buffers and returns the new \<open>to\<close>.
\<close>

definition simulate :: "dim3 \<Rightarrow> dim3 \<Rightarrow> dim3 \<Rightarrow> buffer \<Rightarrow> buffer \<Rightarrow> int \<Rightarrow> buffer option" where
  "simulate blockDim blockIdx threadIdx from to lines =
     (let y = int (snd blockIdx * snd blockDim + snd threadIdx) + 1;
          x = int (fst blockIdx * fst blockDim + fst threadIdx) + 1
      in do {
        a \<leftarrow> rd from (y - 1, x - 1); b \<leftarrow> rd from (y, x - 1); c \<leftarrow> rd from (y + 1, x - 1);
        d \<leftarrow> rd from (y - 1, x);     e \<leftarrow> rd from (y, x);     f \<leftarrow> rd from (y + 1, x);
        g \<leftarrow> rd from (y - 1, x + 1); h \<leftarrow> rd from (y, x + 1); i \<leftarrow> rd from (y + 1, x + 1);
        v \<leftarrow> anneal_at (sint a + sint b + sint c + sint d + sint e + sint f
                           + sint g + sint h + sint i);
        wr to (y, x) v
      })"

text \<open>
  The launch configuration of \<open>main\<close>: \<^verbatim>\<open>dim3 numBlocks(32, 4096);\<close> and
  \<^verbatim>\<open>dim3 threadsPerBlock(32, 32);\<close>, the same for both kernels.
\<close>

definition numBlocks :: dim3 where
  "numBlocks = (32, 4096)"

definition threadsPerBlock :: dim3 where
  "threadsPerBlock = (32, 32)"

text \<open>\<^verbatim>\<open>boundary<<<numBlocks, threadsPerBlock>>>(buf, lines)\<close> under a schedule.\<close>

definition launch_boundary :: "thread list \<Rightarrow> buffer \<Rightarrow> int \<Rightarrow> buffer option" where
  "launch_boundary sched buf lines =
     launch (\<lambda>t b. boundary threadsPerBlock (fst t) (snd t) b lines) sched buf"

text \<open>\<^verbatim>\<open>simulate<<<numBlocks, threadsPerBlock>>>(from, to, lines)\<close> under a schedule.\<close>

definition launch_simulate :: "thread list \<Rightarrow> buffer \<Rightarrow> buffer \<Rightarrow> int \<Rightarrow> buffer option" where
  "launch_simulate sched from to lines =
     launch (\<lambda>t b. simulate threadsPerBlock (fst t) (snd t) from b lines) sched to"

section \<open>Host side\<close>

text \<open>
  A host pointer is \<^verbatim>\<open>NULL\<close> or points to a buffer of its own.  \<^verbatim>\<open>calloc\<close>
  hands out zeroed memory.
\<close>

datatype hostptr = NULL | Ptr buffer

definition calloc :: "int \<Rightarrow> buffer" where
  "calloc n = \<lparr>nrows = n, cells = (\<lambda>p. 0)\<rparr>"

definition wrp :: "hostptr \<Rightarrow> int \<times> int \<Rightarrow> State \<Rightarrow> hostptr option" where
  "wrp q p v = (case q of NULL \<Rightarrow> None | Ptr b \<Rightarrow> map_option Ptr (wr b p v))"

text \<open>
  Modelled from the spec: \<^verbatim>\<open>random.h\<close> is not among the sources.  The generator is
  seeded once and then yields a fixed sequence, so the \<open>k\<close>-th value of
  \<^verbatim>\<open>randInt(100)\<close> after \<^verbatim>\<open>initRandomLEcuyer(seed)\<close> is \<open>rng seed k\<close> for a
  function \<open>rng\<close> that the environment supplies.

  \<^verbatim>\<open>static void initConfig(Line *buf, int lines)\<close>: the inner loop over \<open>x\<close>, the
  outer loop over \<open>y\<close>; \<open>k\<close> counts the draws made so far.
\<close>

function initConfig_x :: "(nat \<Rightarrow> int) \<Rightarrow> int \<Rightarrow> int \<Rightarrow> nat \<Rightarrow> hostptr \<Rightarrow> (hostptr \<times> nat) option" where
  "initConfig_x draw y x k buf =
     (if x \<le> XSIZE
      then (case wrp buf (y, x) (if draw k \<ge> 50 then 1 else 0) of
              None \<Rightarrow> None
            | Some buf' \<Rightarrow> initConfig_x draw y (x + 1) (Suc k) buf')
      else Some (buf, k))"
  by pat_completeness auto
termination
  by (relation "measure (\<lambda>(draw, y, x, k, buf). nat (XSIZE + 1 - x))") auto

function initConfig_y :: "(nat \<Rightarrow> int) \<Rightarrow> int \<Rightarrow> int \<Rightarrow> nat \<Rightarrow> hostptr \<Rightarrow> hostptr option" where
  "initConfig_y draw lines y k buf =
     (if y \<le> lines
      then (case initConfig_x draw y 1 k buf of
              None \<Rightarrow> None
            | Some (buf', k') \<Rightarrow> initConfig_y draw lines (y + 1) k' buf')
      else Some buf)"
  by pat_completeness auto
termination
  by (relation "measure (\<lambda>(draw, lines, y, k, buf). nat (lines + 1 - y))") auto

definition initConfig :: "(int \<Rightarrow> nat \<Rightarrow> int) \<Rightarrow> hostptr \<Rightarrow> int \<Rightarrow> hostptr option" where
  "initConfig rng buf lines = initConfig_y (rng 424243) lines 1 0 buf"

text \<open>
  \<^verbatim>\<open>cudaMemcpy(dst, src, n, kind)\<close> copies the first \<open>n\<close> bytes; the byte at
  offset \<open>r * (XSIZE + 2) + c\<close> is the cell \<open>(r, c)\<close>.
\<close>

definition offset :: "int \<times> int \<Rightarrow> int" where
  "offset p = fst p * (XSIZE + 2) + snd p"

definition cudaMemcpy :: "buffer \<Rightarrow> buffer \<Rightarrow> int \<Rightarrow> buffer option" where
  "cudaMemcpy dst src n =
     (if 0 \<le> n \<and> n \<le> nrows dst * (XSIZE + 2) \<and> n \<le> nrows src * (XSIZE + 2)
      then Some (dst\<lparr>cells := (\<lambda>p. if 0 \<le> fst p \<and> 0 \<le> snd p \<and> snd p < XSIZE + 2 \<and> offset p < n
                                     then cells src p else cells dst p)\<rparr>)
      else None)"

text \<open>The first \<open>n\<close> bytes of a buffer, as \<^verbatim>\<open>MD5_Update(&ctx, buf, buflen)\<close> reads them.\<close>

definition raw_bytes :: "buffer \<Rightarrow> nat \<Rightarrow> State list" where
  "raw_bytes b n = map (\<lambda>k. cells b (int k div (XSIZE + 2), int k mod (XSIZE + 2))) [0..<n]"

text \<open>\<^verbatim>\<open>snprintf(ptr, 3, "%02X", sum[i])\<close>: two upper-case hexadecimal digits.\<close>

definition hex_digit :: "nat \<Rightarrow> char" where
  "hex_digit n = ''0123456789ABCDEF'' ! n"

definition hex_byte :: "8 word \<Rightarrow> string" where
  "hex_byte b = [hex_digit (unat b div 16), hex_digit (unat b mod 16)]"

definition MD5_DIGEST_LENGTH :: nat where
  "MD5_DIGEST_LENGTH = 16"

text \<open>
  \<^verbatim>\<open>char* getMD5DigestStr(void* buf, size_t buflen)\<close>.  OpenSSL's MD5 is outside the
  sources: \<open>md5 bytes i\<close> stands for \<^verbatim>\<open>sum[i]\<close> after \<^verbatim>\<open>MD5_Final\<close>.  Reading
  more bytes than the buffer holds is out of bounds.
\<close>

definition getMD5DigestStr :: "(State list \<Rightarrow> nat \<Rightarrow> 8 word) \<Rightarrow> buffer \<Rightarrow> nat \<Rightarrow> string option" where
  "getMD5DigestStr md5 buf buflen =
     (if int buflen \<le> nrows buf * (XSIZE + 2)
      then Some (concat (map (\<lambda>i. hex_byte (md5 (raw_bytes buf buflen) i)) [0..<MD5_DIGEST_LENGTH]))
      else None)"

section \<open>The program\<close>

text \<open>
  Device memory maps a device pointer to the buffer it points to; the pointer 0 is
  \<^verbatim>\<open>NULL\<close>, and a pointer that was never allocated points to no line at all.  The
  device state of \<open>main\<close> is the memory and the three pointer variables.
\<close>

record device =
  mem :: "nat \<Rightarrow> buffer"
  pFrom :: nat
  pTo :: nat
  pTemp :: nat

text \<open>
  The body of the \<^verbatim>\<open>for\<close> loop of \<open>main\<close>: the two launches, each under its
  schedule, and the exchange of the pointers.  The second launch starts when the first
  has finished.  \<open>pFrom\<close> and \<open>pTo\<close> are different allocations in every state that
  \<open>main\<close> reaches.
\<close>

definition step :: "thread list \<times> thread list \<Rightarrow> int \<Rightarrow> device \<Rightarrow> device option" where
  "step sc lines d = do {
     b \<leftarrow> launch_boundary (fst sc) (mem d (pFrom d)) lines;
     let m = (mem d)(pFrom d := b);
     t \<leftarrow> launch_simulate (snd sc) (m (pFrom d)) (m (pTo d)) lines;
     let m = m(pTo d := t);
     Some \<lparr>mem = m, pFrom = pTo d, pTo = pFrom d, pTemp = pFrom d\<rparr>
   }"

text \<open>\<^verbatim>\<open>for (int i = 0; i < iterations; i++) { ... }\<close>; \<open>sch i\<close> holds the schedules of iteration \<open>i\<close>.\<close>

function main_loop :: "(nat \<Rightarrow> thread list \<times> thread list) \<Rightarrow> int \<Rightarrow> int \<Rightarrow> int \<Rightarrow> device \<Rightarrow> device option" where
  "main_loop sch lines iterations i d =
     (if i < iterations
      then (case step (sch (nat i)) lines d of
              None \<Rightarrow> None
            | Some d' \<Rightarrow> main_loop sch lines iterations (i + 1) d')
      else Some d)"
  by pat_completeness auto
termination
  by (relation "measure (\<lambda>(sch, lines, iterations, i, d). nat (iterations - i))") auto

text \<open>
  What a run of the program depends on besides its code: the arguments, whether each
  allocation succeeds, what the memory handed out by \<^verbatim>\<open>cudaMalloc\<close> holds (it is
  not initialised), the random generator, the schedules of the launches, MD5, and the
  time measured, already printed with \<^verbatim>\<open>%.1f\<close>.
\<close>

record env =
  argc :: int
  arg_lines :: int
  arg_iterations :: int
  calloc_from_ok :: bool
  calloc_to_ok :: bool
  cudaMalloc_from_ok :: bool
  cudaMalloc_to_ok :: bool
  fresh_from :: "int \<times> int \<Rightarrow> State"
  fresh_to :: "int \<times> int \<Rightarrow> State"
  rng :: "int \<Rightarrow> nat \<Rightarrow> int"
  schedules :: "nat \<Rightarrow> thread list \<times> thread list"
  md5 :: "State list \<Rightarrow> nat \<Rightarrow> 8 word"
  elapsed :: string

text \<open>
  The first allocation of the device returns the pointer 1, the second the pointer 2,
  and a failed one \<^verbatim>\<open>NULL\<close>, which is what \<open>main\<close> tests for.
\<close>

definition cudaMalloc :: "bool \<Rightarrow> nat \<Rightarrow> int \<Rightarrow> (int \<times> int \<Rightarrow> State) \<Rightarrow> (nat \<Rightarrow> buffer) \<Rightarrow> nat \<times> (nat \<Rightarrow> buffer)" where
  "cudaMalloc ok p n fresh m = (if ok then (p, m(p := \<lparr>nrows = n, cells = fresh\<rparr>)) else (0, m))"

definition no_memory :: "nat \<Rightarrow> buffer" where
  "no_memory = (\<lambda>p. \<lparr>nrows = 0, cells = (\<lambda>c. 0)\<rparr>)"

text \<open>
  From \<^verbatim>\<open>TIME_GET(start)\<close> to \<^verbatim>\<open>TIME_GET(end)\<close>: the upload of \<open>from\<close>, the loop,
  and the download of the buffer that \<open>pFrom\<close> points to into \<open>from\<close>.
\<close>

definition simulation :: "env \<Rightarrow> device \<Rightarrow> buffer \<Rightarrow> buffer option" where
  "simulation e d from = do {
     let lines = arg_lines e;
     up \<leftarrow> cudaMemcpy (mem d (pFrom d)) from ((lines + 2) * (XSIZE + 2));
     d' \<leftarrow> main_loop (schedules e) lines (arg_iterations e) 0 (d\<lparr>mem := (mem d)(pFrom d := up)\<rparr>);
     cudaMemcpy from (mem d' (pFrom d')) ((lines + 2) * (XSIZE + 2))
   }"

text \<open>\<^verbatim>\<open>printf("hash gpu: %s\ttime: %.1f ms\n", hash, ...)\<close>.\<close>

definition report :: "string \<Rightarrow> string \<Rightarrow> string" where
  "report hash ms = ''hash gpu: '' @ hash @ [CHR 0x09] @ ''time: '' @ ms @ '' ms'' @ [CHR 0x0A]"

text \<open>
  How a run ends: \<^verbatim>\<open>assert\<close> aborts it; it runs into undefined behaviour (an access
  through \<^verbatim>\<open>NULL\<close> or outside a buffer); or it exits with a status, having written
  a text to standard output.
\<close>

datatype outcome = Aborted | Undefined | Exit int string

definition size_t :: "int \<Rightarrow> nat" where
  "size_t n = nat (n mod 2 ^ 64)"

text \<open>
  \<open>main\<close>, with the host pointers \<open>from\<close> and \<open>to\<close> that it uses (their declaration
  is missing in the source): first up to the download of the final grid, where the run
  has ended early (\<open>Inl\<close>) or holds the final grid in \<open>from\<close> (\<open>Inr\<close>), then the
  digest and the output.  \<^verbatim>\<open>CUDA_ERR_CHECK(cudaGetLastError())\<close> after the download ends
  the run when the device reports an error; the model has no error of the device other
  than an access outside a buffer, which is undefined.  The calls of \<^verbatim>\<open>cudaFree\<close>
  and \<^verbatim>\<open>free\<close> after the output are left out.
\<close>

definition main_from :: "env \<Rightarrow> hostptr" where
  "main_from e = (if calloc_from_ok e then Ptr (calloc (arg_lines e + 2)) else NULL)"

definition main_to :: "env \<Rightarrow> hostptr" where
  "main_to e = (if calloc_to_ok e then Ptr (calloc (arg_lines e + 2)) else NULL)"

definition main_device :: "env \<Rightarrow> device" where
  "main_device e =
     (let (pf, m) = cudaMalloc (cudaMalloc_from_ok e) 1 (arg_lines e + 2) (fresh_from e) no_memory;
          (pt, m) = cudaMalloc (cudaMalloc_to_ok e) 2 (arg_lines e + 2) (fresh_to e) m
      in \<lparr>mem = m, pFrom = pf, pTo = pt, pTemp = 0\<rparr>)"

definition main_simulation :: "env \<Rightarrow> outcome + buffer" where
  "main_simulation e =
     (if argc e \<noteq> 3 then Inl Aborted
      else case initConfig (rng e) (main_from e) (arg_lines e) of
        None \<Rightarrow> Inl Undefined
      | Some NULL \<Rightarrow> Inl (Exit 1 ''ERROR: failure allocating host memory\<newline>'')
      | Some (Ptr from) \<Rightarrow>
          if main_to e = NULL
          then Inl (Exit 1 ''ERROR: failure allocating host memory\<newline>'')
          else let d = main_device e in
            if pFrom d = 0 \<or> pTo d = 0
            then Inl (Exit 1 ''ERROR: failure allocating device memory\<newline>'')
            else (case simulation e d from of
                   None \<Rightarrow> Inl Undefined
                 | Some final \<Rightarrow> Inr final))"

definition main :: "env \<Rightarrow> outcome" where
  "main e =
     (case main_simulation e of
        Inl out \<Rightarrow> out
      | Inr final \<Rightarrow>
          (case getMD5DigestStr (md5 e) final (size_t (arg_lines e)) of
             None \<Rightarrow> Undefined
           | Some hash \<Rightarrow> Exit 0 (report hash (elapsed e))))"

text \<open>The grid that \<open>from\<close> holds when the digest is taken, in a run that gets there.\<close>

definition final_grid :: "env \<Rightarrow> buffer option" where
  "final_grid e = (case main_simulation e of Inl out \<Rightarrow> None | Inr final \<Rightarrow> Some final)"

text \<open>
  The launches of a run are those of \<open>main\<close> when every schedule that the environment
  supplies is a schedule of \<^verbatim>\<open><<<numBlocks, threadsPerBlock>>>\<close>.
\<close>

definition valid_schedules :: "(nat \<Rightarrow> thread list \<times> thread list) \<Rightarrow> bool" where
  "valid_schedules sch =
     (\<forall>i. schedule_of numBlocks threadsPerBlock (fst (sch i))
        \<and> schedule_of numBlocks threadsPerBlock (snd (sch i)))"

section \<open>Regions of a grid\<close>

text \<open>
  The coordinates \<open>x\<close> and \<open>y\<close> that a thread of a launch of \<open>main\<close> computes from
  \<^verbatim>\<open>blockIdx\<close>, \<^verbatim>\<open>blockDim\<close> and \<^verbatim>\<open>threadIdx\<close> in \<open>boundary\<close> (\<open>simulate\<close>
  adds 1 to each), and the number of values that \<open>y\<close> takes.
\<close>

definition thread_x :: "thread \<Rightarrow> int" where
  "thread_x t = int (fst (fst t) * fst threadsPerBlock + fst (snd t))"

definition thread_y :: "thread \<Rightarrow> int" where
  "thread_y t = int (snd (fst t) * snd threadsPerBlock + snd (snd t))"

definition launch_height :: int where
  "launch_height = int (snd numBlocks * snd threadsPerBlock)"

text \<open>
  For a grid of \<open>lines\<close> lines: the interior, the halo around it, and the interior cell
  that a cell stands for on the torus.
\<close>

definition interior :: "int \<Rightarrow> int \<times> int \<Rightarrow> bool" where
  "interior lines p = (1 \<le> fst p \<and> fst p \<le> lines \<and> 1 \<le> snd p \<and> snd p \<le> XSIZE)"

definition in_grid :: "int \<Rightarrow> int \<times> int \<Rightarrow> bool" where
  "in_grid lines p = (0 \<le> fst p \<and> fst p \<le> lines + 1 \<and> 0 \<le> snd p \<and> snd p \<le> XSIZE + 1)"

definition halo :: "int \<Rightarrow> int \<times> int \<Rightarrow> bool" where
  "halo lines p = (in_grid lines p \<and> \<not> interior lines p)"

definition wrap :: "int \<Rightarrow> int \<times> int \<Rightarrow> int \<times> int" where
  "wrap lines p =
     (if fst p = 0 then lines else if fst p = lines + 1 then 1 else fst p,
      if snd p = 0 then XSIZE else if snd p = XSIZE + 1 then 1 else snd p)"

text \<open>The sum that a thread of \<open>simulate\<close> computes for the cell \<open>p\<close>.\<close>

definition nsum :: "buffer \<Rightarrow> int \<times> int \<Rightarrow> int" where
  "nsum b p =
     (let y = fst p; x = snd p in
      sint (cells b (y - 1, x - 1)) + sint (cells b (y, x - 1)) + sint (cells b (y + 1, x - 1))
      + sint (cells b (y - 1, x)) + sint (cells b (y, x)) + sint (cells b (y + 1, x))
      + sint (cells b (y - 1, x + 1)) + sint (cells b (y, x + 1)) + sint (cells b (y + 1, x + 1)))"

text \<open>Every cell of the buffer holds 0 or 1.\<close>

definition binary :: "buffer \<Rightarrow> bool" where
  "binary b = (\<forall>p. in_buffer b p \<longrightarrow> cells b p = 0 \<or> cells b p = 1)"

text \<open>
  The assignments \<^verbatim>\<open>buf[d] = buf[s]\<close> that the thread of \<open>boundary\<close> with the
  coordinates \<open>x\<close> and \<open>y\<close> makes, in its order, each as the pair \<open>(d, s)\<close>.
\<close>

definition boundary_ops :: "int \<Rightarrow> int \<Rightarrow> int \<Rightarrow> ((int \<times> int) \<times> (int \<times> int)) list" where
  "boundary_ops lines x y =
     (if y = lines - 1 then [((y + 2, x + 1), (1, x + 1))] else [])
     @ (if y = 0 then [((y, x + 1), (lines, x + 1))] else [])
     @ (if x = 0 then [((y + 1, x), (y + 1, XSIZE))] else [])
     @ (if x = XSIZE - 1 then [((y + 1, x + 2), (y + 1, 1))] else [])
     @ (if x = 0 \<and> y = 0
        then [((0, 0), (lines, XSIZE)), ((0, XSIZE + 1), (lines, 1)),
              ((lines + 1, 0), (1, XSIZE)), ((lines + 1, XSIZE + 1), (1, 1))]
        else [])"

definition assign_op :: "(int \<times> int) \<times> (int \<times> int) \<Rightarrow> buffer \<Rightarrow> buffer option" where
  "assign_op op b = assign b (fst op) (snd op)"

text \<open>The nine cells that a thread of \<open>simulate\<close> reads for the cell \<open>p\<close> lie in the buffer.\<close>

definition readable :: "buffer \<Rightarrow> int \<times> int \<Rightarrow> bool" where
  "readable b p = (in_buffer b (fst p - 1, snd p - 1) \<and> in_buffer b (fst p + 1, snd p + 1))"

section \<open>Auxiliary notions\<close>

text \<open>The cell that \<open>initConfig\<close> stores for a draw \<open>r\<close>: the value of \<^verbatim>\<open>r >= 50\<close>.\<close>

definition cell_of_draw :: "int \<Rightarrow> State" where
  "cell_of_draw r = (if r \<ge> 50 then 1 else 0)"

text \<open>
  Modelled from the spec: the raw bytes of the interior of a grid, that is the cells of the
  rows \<open>1..lines\<close> and the columns \<open>1..XSIZE\<close>, row by row.
\<close>

definition interior_bytes :: "buffer \<Rightarrow> int \<Rightarrow> State list" where
  "interior_bytes b lines = concat (map (\<lambda>r. map (\<lambda>c. cells b (r, c)) [1..XSIZE]) [1..lines])"

text \<open>
  A run in which the arguments are well-formed, every allocation succeeds, the device
  memory is zero when it is handed out, every draw is 0, and the threads of every launch
  run in the order of their indices.
\<close>

definition plain_env :: "int \<Rightarrow> int \<Rightarrow> env" where
  "plain_env lines iterations =
     \<lparr>argc = 3, arg_lines = lines, arg_iterations = iterations,
      calloc_from_ok = True, calloc_to_ok = True, cudaMalloc_from_ok = True, cudaMalloc_to_ok = True,
      fresh_from = (\<lambda>p. 0), fresh_to = (\<lambda>p. 0), rng = (\<lambda>seed k. 0),
      schedules = (\<lambda>i. (grid_threads numBlocks threadsPerBlock, grid_threads numBlocks threadsPerBlock)),
      md5 = (\<lambda>bytes i. 0), elapsed = ''0.0''\<rparr>"

text \<open>
  The assignments of all threads of a launch of \<open>boundary\<close>, in the order of a
  schedule, and the cells that the threads of a launch of \<open>main\<close> assign to.
\<close>

definition sched_ops :: "int \<Rightarrow> thread list \<Rightarrow> ((int \<times> int) \<times> (int \<times> int)) list" where
  "sched_ops lines sched = concat (map (\<lambda>t. boundary_ops lines (thread_x t) (thread_y t)) sched)"

definition boundary_written :: "int \<Rightarrow> (int \<times> int) set" where
  "boundary_written lines =
     (\<Union>t \<in> set (grid_threads numBlocks threadsPerBlock).
        fst ` set (boundary_ops lines (thread_x t) (thread_y t)))"

text \<open>
  Modelled from the spec (4.4), to be compared with the loop of \<open>main\<close>: a step runs the
  boundary synchronizer on the source, then the transition kernel from the source into
  the destination, then exchanges the roles, so a step maps the pair (source,
  destination) to the pair (written destination, synchronised source); \<open>n\<close> steps are
  made one after the other, the \<open>k\<close>-th under the schedules \<open>sch k\<close>.
\<close>

definition spec_step :: "thread list \<times> thread list \<Rightarrow> int \<Rightarrow> buffer \<times> buffer \<Rightarrow> (buffer \<times> buffer) option" where
  "spec_step sc lines sd = do {
     s \<leftarrow> launch_boundary (fst sc) (fst sd) lines;
     t \<leftarrow> launch_simulate (snd sc) s (snd sd) lines;
     Some (t, s)
   }"

fun spec_steps :: "(nat \<Rightarrow> thread list \<times> thread list) \<Rightarrow> int \<Rightarrow> nat \<Rightarrow> nat \<Rightarrow> buffer \<times> buffer
    \<Rightarrow> (buffer \<times> buffer) option" where
  "spec_steps sch lines k 0 sd = Some sd"
| "spec_steps sch lines k (Suc n) sd =
     (case spec_step (sch k) lines sd of None \<Rightarrow> None | Some sd' \<Rightarrow> spec_steps sch lines (Suc k) n sd')"

text \<open>The buffers that have the roles of source and destination in a device state.\<close>

definition roles :: "device \<Rightarrow> buffer \<times> buffer" where
  "roles d = (mem d (pFrom d), mem d (pTo d))"

text \<open>
  Two buffers hold the same in the cells of a region, and a buffer holds 0 or 1 in the
  cells of a region.
\<close>

definition same_on :: "(int \<times> int \<Rightarrow> bool) \<Rightarrow> buffer \<Rightarrow> buffer \<Rightarrow> bool" where
  "same_on P a b = (\<forall>p. P p \<longrightarrow> cells a p = cells b p)"

definition binary_on :: "(int \<times> int \<Rightarrow> bool) \<Rightarrow> buffer \<Rightarrow> bool" where
  "binary_on P b = (\<forall>p. P p \<longrightarrow> cells b p = 0 \<or> cells b p = 1)"

text \<open>
  A run gets as far as the loop: the argument count is right, every allocation succeeds,
  and the schedules are schedules of the launches of \<open>main\<close>.
\<close>

definition ok_env :: "env \<Rightarrow> bool" where
  "ok_env e = (argc e = 3 \<and> calloc_from_ok e \<and> calloc_to_ok e \<and> cudaMalloc_from_ok e
      \<and> cudaMalloc_to_ok e \<and> valid_schedules (schedules e))"

text \<open>
  What the upload makes of the device buffer for a host grid \<open>g\<close>, and what the download
  of a device buffer \<open>s\<close> makes of the host grid \<open>g\<close>, when all have \<open>lines + 2\<close> lines.
\<close>

definition uploaded :: "env \<Rightarrow> buffer \<Rightarrow> buffer" where
  "uploaded e g = \<lparr>nrows = arg_lines e + 2,
                   cells = (\<lambda>p. if in_grid (arg_lines e) p then cells g p else fresh_from e p)\<rparr>"

definition downloaded :: "int \<Rightarrow> buffer \<Rightarrow> buffer \<Rightarrow> buffer" where
  "downloaded lines g s = g\<lparr>cells := (\<lambda>p. if in_grid lines p then cells s p else cells g p)\<rparr>"

text \<open>
  How the pairs (source, destination) of two runs with \<open>lines = 131072\<close> and the same
  initial grid are related after \<open>k\<close> steps: the sources hold the same zeros and ones in
  the interior; the destinations hold the same in the whole grid once a step was made,
  and the sources do except after the first step, when the halo of the source is what
  the device memory held.
\<close>

definition related :: "nat \<Rightarrow> buffer \<times> buffer \<Rightarrow> buffer \<times> buffer \<Rightarrow> bool" where
  "related k x y =
     (nrows (fst x) = launch_height + 2 \<and> nrows (snd x) = launch_height + 2
      \<and> nrows (fst y) = launch_height + 2 \<and> nrows (snd y) = launch_height + 2
      \<and> binary_on (interior launch_height) (fst x)
      \<and> same_on (interior launch_height) (fst x) (fst y)
      \<and> (k \<noteq> 1 \<longrightarrow> same_on (in_grid launch_height) (fst x) (fst y))
      \<and> (1 \<le> k \<longrightarrow> same_on (in_grid launch_height) (snd x) (snd y)))"

text \<open>
  Modelled from the spec (8, torus wrap correctness): the cell and the neighbour sum that
  are obtained by indexing the interior modulo \<open>lines\<close> (rows) and modulo \<open>XSIZE\<close>
  (columns), with no halo at all.
\<close>

definition torus_cell :: "buffer \<Rightarrow> int \<Rightarrow> int \<times> int \<Rightarrow> State" where
  "torus_cell b lines p = cells b ((fst p - 1) mod lines + 1, (snd p - 1) mod XSIZE + 1)"

definition torus_sum :: "buffer \<Rightarrow> int \<Rightarrow> int \<times> int \<Rightarrow> int" where
  "torus_sum b lines p =
     (let y = fst p; x = snd p in
      sint (torus_cell b lines (y - 1, x - 1)) + sint (torus_cell b lines (y, x - 1))
      + sint (torus_cell b lines (y + 1, x - 1))
      + sint (torus_cell b lines (y - 1, x)) + sint (torus_cell b lines (y, x))
      + sint (torus_cell b lines (y + 1, x))
      + sint (torus_cell b lines (y - 1, x + 1)) + sint (torus_cell b lines (y, x + 1))
      + sint (torus_cell b lines (y + 1, x + 1)))"

declare initConfig_x.simps [simp del]

declare initConfig_y.simps [simp del]

declare main_loop.simps [simp del]

section \<open>Launches in general\<close>

lemma XSIZE_pos: "0 < XSIZE" by (simp add: XSIZE_def)

lemma launch_append:
  "launch body (xs @ ys) s = (case launch body xs s of None \<Rightarrow> None | Some s' \<Rightarrow> launch body ys s')"
  by (induction xs arbitrary: s) (auto split: option.splits)

lemma launch_concat:
  "launch (\<lambda>t. launch body (ops t)) ts s = launch body (concat (map ops ts)) s"
  by (induction ts arbitrary: s) (auto simp: launch_append split: option.splits)

lemma launch_succeeds:
  assumes "Inv s0"
    and "\<And>t s. t \<in> set sched \<Longrightarrow> Inv s \<Longrightarrow> \<exists>s'. body t s = Some s' \<and> Inv s'"
  shows "\<exists>s'. launch body sched s0 = Some s' \<and> Inv s'"
  using assms
proof (induction sched arbitrary: s0)
  case Nil
  then show ?case by simp
next
  case (Cons t ts)
  from Cons.prems obtain s1 where s1: "body t s0 = Some s1" "Inv s1"
    by (meson list.set_intros(1))
  have "\<exists>s'. launch body ts s1 = Some s' \<and> Inv s'"
    by (rule Cons.IH [OF s1(2)]) (simp add: Cons.prems(2))
  with s1 show ?case by simp
qed

lemma launch_fails:
  assumes "Inv s0"
    and "t \<in> set sched"
    and "\<And>s. Inv s \<Longrightarrow> body t s = None"
    and "\<And>u s s'. u \<in> set sched \<Longrightarrow> Inv s \<Longrightarrow> body u s = Some s' \<Longrightarrow> Inv s'"
  shows "launch body sched s0 = None"
  using assms
proof (induction sched arbitrary: s0)
  case Nil
  then show ?case by simp
next
  case (Cons u us)
  show ?case
  proof (cases "body u s0")
    case None
    then show ?thesis by simp
  next
    case (Some s1)
    have inv1: "Inv s1" using Cons.prems(1,4) Some by (meson list.set_intros(1))
    have "u \<noteq> t" using Some Cons.prems(1,3) by auto
    then have mem: "t \<in> set us" using Cons.prems(2) by simp
    have "launch body us s1 = None"
    proof (rule Cons.IH [OF inv1 mem])
      show "\<And>s. Inv s \<Longrightarrow> body t s = None" by (rule Cons.prems(3))
      show "\<And>u s s'. u \<in> set us \<Longrightarrow> Inv s \<Longrightarrow> body u s = Some s' \<Longrightarrow> Inv s'"
        using Cons.prems(4) by (meson list.set_intros(2))
    qed
    with Some show ?thesis by simp
  qed
qed

lemma launch_cells:
  fixes body :: "'t \<Rightarrow> buffer \<Rightarrow> buffer option"
  assumes "launch body sched s0 = Some s'"
    and "Inv s0"
    and "\<And>t s s1. t \<in> set sched \<Longrightarrow> Inv s \<Longrightarrow> body t s = Some s1 \<Longrightarrow>
           Inv s1 \<and> (\<forall>d. cells s1 d = (if d \<in> W t then F d else cells s d))"
  shows "Inv s' \<and> (\<forall>d. cells s' d = (if d \<in> (\<Union>t\<in>set sched. W t) then F d else cells s0 d))"
  using assms
proof (induction sched arbitrary: s0)
  case Nil
  then show ?case by simp
next
  case (Cons t ts)
  from Cons.prems(1) obtain s1 where s1: "body t s0 = Some s1" "launch body ts s1 = Some s'"
    by (auto split: option.splits)
  have one: "Inv s1 \<and> (\<forall>d. cells s1 d = (if d \<in> W t then F d else cells s0 d))"
    using Cons.prems(3) [of t s0 s1] Cons.prems(2) s1(1) by simp
  have rest: "Inv s' \<and> (\<forall>d. cells s' d = (if d \<in> (\<Union>t\<in>set ts. W t) then F d else cells s1 d))"
    by (rule Cons.IH [OF s1(2)]) (use one Cons.prems(3) in auto)
  show ?case using one rest by auto
qed

lemma set_grid_threads:
  "set (grid_threads g b) = {((bx, by), (tx, ty)) | bx by tx ty. bx < fst g \<and> by < snd g \<and> tx < fst b \<and> ty < snd b}"
  by (auto simp: grid_threads_def)

lemma distinct_grid_threads: "distinct (grid_threads g b)"
  by (simp add: grid_threads_def distinct_product)

lemma schedule_of_grid: "schedule_of g b (grid_threads g b)"
  by (simp add: schedule_of_def distinct_grid_threads)

section \<open>The threads of a launch of \<open>main\<close>\<close>

lemma assign_Some:
  "assign b d s = Some b' \<longleftrightarrow> in_buffer b s \<and> in_buffer b d \<and> b' = b\<lparr>cells := (cells b)(d := cells b s)\<rparr>"
  by (auto simp: assign_def rd_def wr_def split: if_splits)

lemma assign_None:
  "assign b d s = None \<longleftrightarrow> \<not> (in_buffer b s \<and> in_buffer b d)"
  by (auto simp: assign_def rd_def wr_def split: if_splits)

lemma launch_Cons_bind: "launch body (t # ts) s = Option.bind (body t s) (launch body ts)"
  by (cases "body t s") simp_all

lemma launch_if_append:
  "launch assign_op ((if c then [op] else []) @ ops) b
     = Option.bind (if c then assign b (fst op) (snd op) else Some b) (launch assign_op ops)"
  by (cases "assign b (fst op) (snd op)") (simp_all add: assign_op_def)

lemma launch_assign_op_Cons:
  "launch assign_op (op # ops) = (\<lambda>b. Option.bind (assign b (fst op) (snd op)) (launch assign_op ops))"
  by (rule ext) (simp add: launch_Cons_bind assign_op_def del: launch.simps)

lemma launch_assign_op_one:
  "launch assign_op [op] = (\<lambda>b. assign b (fst op) (snd op))"
proof
  fix b show "launch assign_op [op] b = assign b (fst op) (snd op)"
    by (cases "assign b (fst op) (snd op)") (simp_all add: assign_op_def)
qed

lemma launch_if_four:
  "launch assign_op (if c then [o1, o2, o3, o4] else []) b
      = (if c then Option.bind (assign b (fst o1) (snd o1)) (\<lambda>b. Option.bind (assign b (fst o2) (snd o2))
           (\<lambda>b. Option.bind (assign b (fst o3) (snd o3)) (\<lambda>b. assign b (fst o4) (snd o4)))) else Some b)"
proof (cases c)
  case True
  have "launch assign_op [o1, o2, o3, o4] b
      = Option.bind (assign b (fst o1) (snd o1)) (\<lambda>b. Option.bind (assign b (fst o2) (snd o2))
           (\<lambda>b. Option.bind (assign b (fst o3) (snd o3)) (\<lambda>b. assign b (fst o4) (snd o4))))"
    unfolding launch_assign_op_one launch_assign_op_Cons [of _ "_ # _"] ..
  with True show ?thesis by simp
next
  case False
  then show ?thesis by simp
qed

lemma boundary_as_ops:
  "boundary threadsPerBlock (fst t) (snd t) buf lines
     = launch assign_op (boundary_ops lines (thread_x t) (thread_y t)) buf"
  unfolding boundary_def boundary_ops_def Let_def launch_if_append launch_if_four
    thread_x_def [symmetric] thread_y_def [symmetric]
  by (simp only: fst_conv snd_conv)

lemma launch_boundary_ops:
  "launch_boundary sched buf lines
     = launch assign_op (concat (map (\<lambda>t. boundary_ops lines (thread_x t) (thread_y t)) sched)) buf"
  unfolding launch_boundary_def boundary_as_ops by (rule launch_concat)

lemma thread_range:
  assumes "t \<in> set (grid_threads numBlocks threadsPerBlock)"
  shows "0 \<le> thread_x t \<and> thread_x t < XSIZE \<and> 0 \<le> thread_y t \<and> thread_y t < launch_height"
proof -
  obtain bx "by" tx ty where t: "t = ((bx, by), (tx, ty))" "bx < 32" "by < 4096" "tx < 32" "ty < 32"
    using assms by (auto simp: set_grid_threads numBlocks_def threadsPerBlock_def)
  then show ?thesis
    by (simp add: thread_x_def thread_y_def launch_height_def XSIZE_def numBlocks_def threadsPerBlock_def)
qed

lemma thread_exists:
  assumes "0 \<le> x" "x < XSIZE" "0 \<le> y" "y < launch_height"
  shows "\<exists>t \<in> set (grid_threads numBlocks threadsPerBlock). thread_x t = x \<and> thread_y t = y"
proof -
  let ?t = "((nat x div 32, nat y div 32), (nat x mod 32, nat y mod 32))"
  have "nat x < 1024" "nat y < 131072"
    using assms by (simp_all add: XSIZE_def launch_height_def numBlocks_def threadsPerBlock_def)
  then have "?t \<in> set (grid_threads numBlocks threadsPerBlock)"
    by (simp add: set_grid_threads numBlocks_def threadsPerBlock_def less_mult_imp_div_less)
  moreover have "thread_x ?t = x" "thread_y ?t = y"
    using assms by (simp_all add: thread_x_def thread_y_def threadsPerBlock_def)
  ultimately show ?thesis by blast
qed

lemma launch_height_eq: "launch_height = 131072"
  by (simp add: launch_height_def numBlocks_def threadsPerBlock_def)

section \<open>One thread of \<open>simulate\<close>\<close>

lemma rd_Some: "rd b p = Some v \<longleftrightarrow> in_buffer b p \<and> v = cells b p"
  by (auto simp: rd_def)

lemma wr_Some: "wr b p v = Some b' \<longleftrightarrow> in_buffer b p \<and> b' = b\<lparr>cells := (cells b)(p := v)\<rparr>"
  by (auto simp: wr_def)

lemma anneal_at_Some: "anneal_at i = Some v \<longleftrightarrow> 0 \<le> i \<and> i < 10 \<and> v = anneal ! nat i"
  by (auto simp: anneal_at_def)

lemma readable_all:
  "readable b (y, x) \<longleftrightarrow>
     in_buffer b (y - 1, x - 1) \<and> in_buffer b (y, x - 1) \<and> in_buffer b (y + 1, x - 1) \<and>
     in_buffer b (y - 1, x) \<and> in_buffer b (y, x) \<and> in_buffer b (y + 1, x) \<and>
     in_buffer b (y - 1, x + 1) \<and> in_buffer b (y, x + 1) \<and> in_buffer b (y + 1, x + 1)"
  by (auto simp: readable_def in_buffer_def)

lemma bind_rd: "Option.bind (rd b p) f = (if in_buffer b p then f (cells b p) else None)"
  by (simp add: rd_def)

lemma bind_anneal_at:
  "Option.bind (anneal_at i) f = (if 0 \<le> i \<and> i < 10 then f (anneal ! nat i) else None)"
  by (simp add: anneal_at_def)

lemma if_None_eq_Some: "((if c then X else None) = Some y) = (c \<and> X = Some y)"
  by simp

lemma simulate_Some:
  "simulate bd bi ti from to lines = Some to' \<longleftrightarrow>
     (let p = (int (snd bi * snd bd + snd ti) + 1, int (fst bi * fst bd + fst ti) + 1) in
      readable from p \<and> 0 \<le> nsum from p \<and> nsum from p < 10 \<and> in_buffer to p \<and>
      to' = to\<lparr>cells := (cells to)(p := anneal ! nat (nsum from p))\<rparr>)"
  unfolding simulate_def Let_def bind_rd bind_anneal_at if_None_eq_Some wr_Some readable_all nsum_def
    fst_conv snd_conv
  by (simp only: conj_assoc)

lemma sint_binary: "(v::8 word) = 0 \<or> v = 1 \<Longrightarrow> sint v = 0 \<or> sint v = 1"
  by auto

lemma nsum_range:
  assumes "readable b p" and "\<forall>q. in_buffer b q \<longrightarrow> cells b q = 0 \<or> cells b q = 1"
  shows "0 \<le> nsum b p \<and> nsum b p \<le> 9"
proof -
  obtain y x where p: "p = (y, x)" by (cases p)
  have r: "in_buffer b q \<Longrightarrow> 0 \<le> sint (cells b q) \<and> sint (cells b q) \<le> 1" for q
    using assms(2) sint_binary [of "cells b q"] by fastforce
  note rs = assms(1) [unfolded p readable_all]
  have "0 \<le> sint (cells b (y - 1, x - 1)) \<and> sint (cells b (y - 1, x - 1)) \<le> 1" using rs r by blast
  moreover have "0 \<le> sint (cells b (y, x - 1)) \<and> sint (cells b (y, x - 1)) \<le> 1" using rs r by blast
  moreover have "0 \<le> sint (cells b (y + 1, x - 1)) \<and> sint (cells b (y + 1, x - 1)) \<le> 1" using rs r by blast
  moreover have "0 \<le> sint (cells b (y - 1, x)) \<and> sint (cells b (y - 1, x)) \<le> 1" using rs r by blast
  moreover have "0 \<le> sint (cells b (y, x)) \<and> sint (cells b (y, x)) \<le> 1" using rs r by blast
  moreover have "0 \<le> sint (cells b (y + 1, x)) \<and> sint (cells b (y + 1, x)) \<le> 1" using rs r by blast
  moreover have "0 \<le> sint (cells b (y - 1, x + 1)) \<and> sint (cells b (y - 1, x + 1)) \<le> 1" using rs r by blast
  moreover have "0 \<le> sint (cells b (y, x + 1)) \<and> sint (cells b (y, x + 1)) \<le> 1" using rs r by blast
  moreover have "0 \<le> sint (cells b (y + 1, x + 1)) \<and> sint (cells b (y + 1, x + 1)) \<le> 1" using rs r by blast
  ultimately show ?thesis unfolding p nsum_def Let_def fst_conv snd_conv by linarith
qed

lemma anneal_values:
  "0 \<le> s \<Longrightarrow> s \<le> 9 \<Longrightarrow> anneal ! nat s = (if s \<in> {4, 6, 7, 8, 9} then 1 else 0)"
proof -
  assume "0 \<le> s" "s \<le> 9"
  then have "s = 0 \<or> s = 1 \<or> s = 2 \<or> s = 3 \<or> s = 4 \<or> s = 5 \<or> s = 6 \<or> s = 7 \<or> s = 8 \<or> s = 9"
    by arith
  then show ?thesis by (auto simp: anneal_def)
qed

lemma interior_readable:
  "interior lines p \<Longrightarrow> nrows b = lines + 2 \<Longrightarrow> readable b p \<and> in_buffer b p"
  by (auto simp: interior_def readable_def in_buffer_def)

section \<open>The host side and runs without iterations\<close>

lemma initConfig_NULL: "1 \<le> lines \<Longrightarrow> initConfig r NULL lines = None"
  by (simp add: initConfig_def initConfig_y.simps [of _ lines 1] initConfig_x.simps [of _ 1 1]
      wrp_def XSIZE_def)

lemma initConfig_x_Ptr:
  "0 \<le> y \<Longrightarrow> 0 \<le> x \<Longrightarrow> x \<le> XSIZE + 1 \<Longrightarrow> buf = Ptr b \<Longrightarrow> y < nrows b \<Longrightarrow>
     \<exists>b'. initConfig_x draw y x k buf = Some (Ptr b', k + nat (XSIZE + 1 - x)) \<and> nrows b' = nrows b \<and>
       (\<forall>p. cells b' p = (if fst p = y \<and> x \<le> snd p \<and> snd p \<le> XSIZE
                            then cell_of_draw (draw (k + nat (snd p - x))) else cells b p))"
proof (induction draw y x k buf arbitrary: b rule: initConfig_x.induct)
  case (1 draw y x k buf)
  show ?case
  proof (cases "x \<le> XSIZE")
    case False
    with 1 show ?thesis
      by (subst initConfig_x.simps) auto
  next
    case True
    note xle = True
    let ?b1 = "b\<lparr>cells := (cells b)((y, x) := cell_of_draw (draw k))\<rparr>"
    have w: "wrp buf (y, x) (if draw k \<ge> 50 then 1 else 0) = Some (Ptr ?b1)"
      using 1 True by (simp add: wrp_def wr_def in_buffer_def cell_of_draw_def)
    have "\<exists>b'. initConfig_x draw y (x + 1) (Suc k) (Ptr ?b1)
              = Some (Ptr b', Suc k + nat (XSIZE + 1 - (x + 1))) \<and> nrows b' = nrows ?b1 \<and>
       (\<forall>p. cells b' p = (if fst p = y \<and> x + 1 \<le> snd p \<and> snd p \<le> XSIZE
                            then cell_of_draw (draw (Suc k + nat (snd p - (x + 1)))) else cells ?b1 p))"
      by (rule "1.IH" [OF True w]) (use 1 True in auto)
    then obtain b' where b': "initConfig_x draw y (x + 1) (Suc k) (Ptr ?b1)
              = Some (Ptr b', Suc k + nat (XSIZE + 1 - (x + 1)))" "nrows b' = nrows b"
       "\<And>p. cells b' p = (if fst p = y \<and> x + 1 \<le> snd p \<and> snd p \<le> XSIZE
                            then cell_of_draw (draw (Suc k + nat (snd p - (x + 1)))) else cells ?b1 p)"
      by auto
    have k: "Suc k + nat (XSIZE + 1 - (x + 1)) = k + nat (XSIZE + 1 - x)"
      using True by arith
    have "initConfig_x draw y x k buf = initConfig_x draw y (x + 1) (Suc k) (Ptr ?b1)"
      by (subst initConfig_x.simps) (simp add: True w)
    then have eq: "initConfig_x draw y x k buf = Some (Ptr b', k + nat (XSIZE + 1 - x))"
      by (simp only: b'(1) k)
    have cells: "cells b' p = (if fst p = y \<and> x \<le> snd p \<and> snd p \<le> XSIZE
                            then cell_of_draw (draw (k + nat (snd p - x))) else cells b p)" for p
    proof (cases "fst p = y \<and> x + 1 \<le> snd p \<and> snd p \<le> XSIZE")
      case True
      have i: "Suc k + nat (snd p - (x + 1)) = k + nat (snd p - x)" using True by arith
      have c: "fst p = y \<and> x \<le> snd p \<and> snd p \<le> XSIZE" using True by arith
      have "cells b' p = cell_of_draw (draw (Suc k + nat (snd p - (x + 1))))"
        by (subst b'(3)) (rule if_P [OF True])
      also have "\<dots> = cell_of_draw (draw (k + nat (snd p - x)))" by (simp only: i)
      finally show ?thesis by (simp only: if_P [OF c])
    next
      case False
      then show ?thesis using xle by (cases p) (auto simp: b'(3))
    qed
    show ?thesis using eq b'(2) cells by blast
  qed
qed

lemma initConfig_y_Ptr:
  "1 \<le> y \<Longrightarrow> y \<le> lines + 1 \<Longrightarrow> buf = Ptr b \<Longrightarrow> lines < nrows b \<Longrightarrow>
     \<exists>b'. initConfig_y draw lines y k buf = Some (Ptr b') \<and> nrows b' = nrows b \<and>
       (\<forall>p. cells b' p = (if y \<le> fst p \<and> fst p \<le> lines \<and> 1 \<le> snd p \<and> snd p \<le> XSIZE
                            then cell_of_draw (draw (k + nat ((fst p - y) * XSIZE + snd p - 1)))
                            else cells b p))"
proof (induction draw lines y k buf arbitrary: b rule: initConfig_y.induct)
  case (1 draw lines y k buf)
  show ?case
  proof (cases "y \<le> lines")
    case False
    with 1 show ?thesis
      by (subst initConfig_y.simps) auto
  next
    case True
    note yle = True
    obtain b1 where b1: "initConfig_x draw y 1 k buf = Some (Ptr b1, k + nat (XSIZE + 1 - 1))"
        "nrows b1 = nrows b"
        "\<And>p. cells b1 p = (if fst p = y \<and> 1 \<le> snd p \<and> snd p \<le> XSIZE
                            then cell_of_draw (draw (k + nat (snd p - 1))) else cells b p)"
      using initConfig_x_Ptr [of y 1 buf b draw k] 1 True XSIZE_pos by auto
    have "\<exists>b'. initConfig_y draw lines (y + 1) (k + nat (XSIZE + 1 - 1)) (Ptr b1) = Some (Ptr b')
        \<and> nrows b' = nrows b1 \<and>
       (\<forall>p. cells b' p = (if y + 1 \<le> fst p \<and> fst p \<le> lines \<and> 1 \<le> snd p \<and> snd p \<le> XSIZE
             then cell_of_draw (draw (k + nat (XSIZE + 1 - 1) + nat ((fst p - (y + 1)) * XSIZE + snd p - 1)))
             else cells b1 p))"
      by (rule "1.IH" [OF True b1(1)]) (use 1 True b1(2) in auto)
    then obtain b' where b': "initConfig_y draw lines (y + 1) (k + nat (XSIZE + 1 - 1)) (Ptr b1) = Some (Ptr b')"
       "nrows b' = nrows b"
       "\<And>p. cells b' p = (if y + 1 \<le> fst p \<and> fst p \<le> lines \<and> 1 \<le> snd p \<and> snd p \<le> XSIZE
             then cell_of_draw (draw (k + nat (XSIZE + 1 - 1) + nat ((fst p - (y + 1)) * XSIZE + snd p - 1)))
             else cells b1 p)"
      using b1(2) by auto
    have "initConfig_y draw lines y k buf
        = initConfig_y draw lines (y + 1) (k + nat (XSIZE + 1 - 1)) (Ptr b1)"
      by (subst initConfig_y.simps) (simp add: True b1(1))
    then have eq: "initConfig_y draw lines y k buf = Some (Ptr b')"
      by (simp only: b'(1))
    have cells: "cells b' p = (if y \<le> fst p \<and> fst p \<le> lines \<and> 1 \<le> snd p \<and> snd p \<le> XSIZE
                            then cell_of_draw (draw (k + nat ((fst p - y) * XSIZE + snd p - 1)))
                            else cells b p)" for p
    proof (cases "y + 1 \<le> fst p \<and> fst p \<le> lines \<and> 1 \<le> snd p \<and> snd p \<le> XSIZE")
      case True
      have i: "k + nat (XSIZE + 1 - 1) + nat ((fst p - (y + 1)) * XSIZE + snd p - 1)
          = k + nat ((fst p - y) * XSIZE + snd p - 1)"
        using True unfolding XSIZE_def by auto
      have c: "y \<le> fst p \<and> fst p \<le> lines \<and> 1 \<le> snd p \<and> snd p \<le> XSIZE" using True by arith
      have "cells b' p = cell_of_draw (draw (k + nat (XSIZE + 1 - 1) + nat ((fst p - (y + 1)) * XSIZE + snd p - 1)))"
        by (subst b'(3)) (rule if_P [OF True])
      also have "\<dots> = cell_of_draw (draw (k + nat ((fst p - y) * XSIZE + snd p - 1)))" by (simp only: i)
      finally show ?thesis by (simp only: if_P [OF c])
    next
      case False
      then show ?thesis using yle by (cases p) (auto simp: b'(3) b1(3))
    qed
    show ?thesis using eq b'(2) cells by blast
  qed
qed

lemma initConfig_Ptr:
  assumes "0 \<le> lines"
  shows "\<exists>g. initConfig r (Ptr (calloc (lines + 2))) lines = Some (Ptr g) \<and> nrows g = lines + 2 \<and>
       (\<forall>p. cells g p = (if interior lines p
                           then cell_of_draw (r 424243 (nat ((fst p - 1) * XSIZE + snd p - 1)))
                           else 0))"
  using initConfig_y_Ptr [of 1 lines "Ptr (calloc (lines + 2))" "calloc (lines + 2)" "r 424243" 0] assms
  by (auto simp: initConfig_def calloc_def interior_def)

lemma offset_less:
  "0 \<le> snd p \<Longrightarrow> snd p < XSIZE + 2 \<Longrightarrow> offset p < n * (XSIZE + 2) \<longleftrightarrow> fst p < n"
  by (cases p) (auto simp: offset_def XSIZE_def)

lemma cudaMemcpy_all:
  assumes "nrows dst = n" "nrows src = n" "0 \<le> n"
  shows "cudaMemcpy dst src (n * (XSIZE + 2))
     = Some (dst\<lparr>cells := (\<lambda>p. if in_buffer dst p then cells src p else cells dst p)\<rparr>)"
proof -
  have "(0 \<le> fst p \<and> 0 \<le> snd p \<and> snd p < XSIZE + 2 \<and> offset p < n * (XSIZE + 2)) = in_buffer dst p" for p
    using offset_less [of p n] assms(1) by (auto simp: in_buffer_def)
  then show ?thesis
    using assms XSIZE_pos by (simp add: cudaMemcpy_def)
qed

lemma main_loop_done: "iterations \<le> i \<Longrightarrow> main_loop sch lines iterations i d = Some d"
  by (subst main_loop.simps) simp

lemma main_device_ok:
  assumes "cudaMalloc_from_ok e" "cudaMalloc_to_ok e"
  shows "pFrom (main_device e) = Suc 0" "pTo (main_device e) = 2"
    "mem (main_device e) (Suc 0) = \<lparr>nrows = arg_lines e + 2, cells = fresh_from e\<rparr>"
    "mem (main_device e) 2 = \<lparr>nrows = arg_lines e + 2, cells = fresh_to e\<rparr>"
  using assms by (simp_all add: main_device_def cudaMalloc_def)

lemma simulation_zero:
  assumes "arg_iterations e \<le> 0" "0 \<le> arg_lines e" "nrows g = arg_lines e + 2"
    "nrows (mem d (pFrom d)) = arg_lines e + 2"
  shows "simulation e d g = Some g"
proof -
  let ?n = "arg_lines e + 2"
  let ?up = "(mem d (pFrom d))\<lparr>cells := (\<lambda>p. if in_buffer (mem d (pFrom d)) p then cells g p
                 else cells (mem d (pFrom d)) p)\<rparr>"
  have up: "cudaMemcpy (mem d (pFrom d)) g (?n * (XSIZE + 2)) = Some ?up"
    by (rule cudaMemcpy_all) (use assms in auto)
  have same: "in_buffer g p \<Longrightarrow> cells ?up p = cells g p" for p
    using assms(3,4) by (simp add: in_buffer_def)
  have "cudaMemcpy g ?up (?n * (XSIZE + 2))
      = Some (g\<lparr>cells := (\<lambda>p. if in_buffer g p then cells ?up p else cells g p)\<rparr>)"
    by (rule cudaMemcpy_all) (use assms in auto)
  also have "(\<lambda>p. if in_buffer g p then cells ?up p else cells g p) = cells g"
    using same by auto
  finally have down: "cudaMemcpy g ?up (?n * (XSIZE + 2)) = Some g" by simp
  show ?thesis
    unfolding simulation_def Let_def using up down assms(1)
    by (simp add: main_loop_done)
qed

lemma size_t_le: "0 \<le> n \<Longrightarrow> int (size_t n) \<le> n"
  by (simp add: size_t_def zmod_le_nonneg_dividend)

lemma getMD5DigestStr_Some:
  assumes "0 \<le> lines" "nrows g = lines + 2"
  shows "getMD5DigestStr m g (size_t lines)
     = Some (concat (map (\<lambda>i. hex_byte (m (raw_bytes g (size_t lines)) i)) [0..<MD5_DIGEST_LENGTH]))"
proof -
  have "int (size_t lines) \<le> lines" using assms(1) by (rule size_t_le)
  also have "lines \<le> (lines + 2) * (XSIZE + 2)" using assms(1) by (simp add: XSIZE_def)
  finally show ?thesis by (simp add: getMD5DigestStr_def assms(2))
qed

lemma main_zero:
  assumes "argc e = 3" "1 \<le> arg_lines e" "arg_iterations e = 0"
    "calloc_from_ok e" "calloc_to_ok e" "cudaMalloc_from_ok e" "cudaMalloc_to_ok e"
  shows "\<exists>g. initConfig (rng e) (main_from e) (arg_lines e) = Some (Ptr g)
           \<and> nrows g = arg_lines e + 2
           \<and> (\<forall>p. cells g p = (if interior (arg_lines e) p
                 then cell_of_draw (rng e 424243 (nat ((fst p - 1) * XSIZE + snd p - 1))) else 0))
           \<and> final_grid e = Some g
           \<and> main e = Exit 0 (report (concat (map (\<lambda>i. hex_byte (md5 e (raw_bytes g (size_t (arg_lines e))) i))
                                         [0..<MD5_DIGEST_LENGTH])) (elapsed e))"
proof -
  obtain g where g: "initConfig (rng e) (Ptr (calloc (arg_lines e + 2))) (arg_lines e) = Some (Ptr g)"
    "nrows g = arg_lines e + 2"
    "\<forall>p. cells g p = (if interior (arg_lines e) p
                 then cell_of_draw (rng e 424243 (nat ((fst p - 1) * XSIZE + snd p - 1))) else 0)"
    using initConfig_Ptr [of "arg_lines e" "rng e"] assms(2) by auto
  have init: "initConfig (rng e) (main_from e) (arg_lines e) = Some (Ptr g)"
    using g(1) assms(4) by (simp add: main_from_def)
  have sim: "simulation e (main_device e) g = Some g"
    by (rule simulation_zero) (use assms g(2) in \<open>simp_all add: main_device_ok\<close>)
  have ms: "main_simulation e = Inr g"
    using assms init sim by (simp add: main_simulation_def main_to_def main_device_ok Let_def)
  have fin: "final_grid e = Some g"
    by (simp add: final_grid_def ms)
  have "main e = Exit 0 (report (concat (map (\<lambda>i. hex_byte (md5 e (raw_bytes g (size_t (arg_lines e))) i))
                                         [0..<MD5_DIGEST_LENGTH])) (elapsed e))"
    using assms(2) ms getMD5DigestStr_Some [of "arg_lines e" g "md5 e"] g(2)
    by (simp add: main_def)
  with init g(2,3) fin show ?thesis by blast
qed

lemma hex_digit_upper: "n < 16 \<Longrightarrow> hex_digit n \<in> set ''0123456789ABCDEF''"
  unfolding hex_digit_def by (rule nth_mem) simp

lemma hex_byte_format:
  "length (hex_byte b) = 2 \<and> set (hex_byte b) \<subseteq> set ''0123456789ABCDEF''"
proof -
  have "unat b < 2 ^ LENGTH(8)" by (rule unsigned_less)
  then have "unat b < 256" by simp
  then have "unat b div 16 < 16" "unat b mod 16 < 16" by auto
  then show ?thesis
    using hex_digit_upper by (simp add: hex_byte_def)
qed

lemma digest_format:
  assumes "getMD5DigestStr m b n = Some h"
  shows "length h = 32 \<and> set h \<subseteq> set ''0123456789ABCDEF''"
proof -
  have h: "h = concat (map (\<lambda>i. hex_byte (m (raw_bytes b n) i)) [0..<MD5_DIGEST_LENGTH])"
    using assms by (auto simp: getMD5DigestStr_def split: if_splits)
  have "length h = sum_list (map (\<lambda>i. 2) [0..<MD5_DIGEST_LENGTH])"
    unfolding h length_concat map_map comp_def using hex_byte_format by simp
  also have "\<dots> = 32" by (simp add: sum_list_triv MD5_DIGEST_LENGTH_def)
  finally have "length h = 32" .
  moreover have "set h \<subseteq> set ''0123456789ABCDEF''"
    unfolding h using hex_byte_format by (auto simp del: set_simps)
  ultimately show ?thesis ..
qed

lemma hex_digit_inj:
  assumes "i < 16" "j < 16" "hex_digit i = hex_digit j"
  shows "i = j"
proof -
  have d: "distinct ''0123456789ABCDEF''" by simp
  have l: "length ''0123456789ABCDEF'' = 16" by simp
  show ?thesis
    using nth_eq_iff_index_eq [OF d, of i j] assms unfolding hex_digit_def l by blast
qed

lemma hex_byte_inj:
  assumes "hex_byte a = hex_byte b"
  shows "a = b"
proof -
  have "unat a < 2 ^ LENGTH(8)" "unat b < 2 ^ LENGTH(8)" by (rule unsigned_less)+
  then have r: "unat a div 16 < 16" "unat a mod 16 < 16" "unat b div 16 < 16" "unat b mod 16 < 16"
    by auto
  have "hex_digit (unat a div 16) = hex_digit (unat b div 16)"
    "hex_digit (unat a mod 16) = hex_digit (unat b mod 16)"
    using assms by (simp_all add: hex_byte_def)
  then have "unat a div 16 = unat b div 16" "unat a mod 16 = unat b mod 16"
    using r hex_digit_inj by blast+
  then have "unat a = unat b" by (metis div_mult_mod_eq)
  then show ?thesis by (rule word_unat_eq_iff [THEN iffD2])
qed

lemma digest_inj:
  "concat (map (\<lambda>i. hex_byte (a i)) [0..<n]) = concat (map (\<lambda>i. hex_byte (b i)) [0..<n])
     \<Longrightarrow> i < n \<Longrightarrow> a i = b i"
proof (induction n)
  case 0
  then show ?case by simp
next
  case (Suc n)
  have len: "length (concat (map (\<lambda>i. hex_byte (c i)) [0..<n])) = 2 * n" for c :: "nat \<Rightarrow> 8 word"
    by (induction n) (simp_all add: hex_byte_def)
  from Suc.prems(1) have
    "concat (map (\<lambda>i. hex_byte (a i)) [0..<n]) @ hex_byte (a n)
       = concat (map (\<lambda>i. hex_byte (b i)) [0..<n]) @ hex_byte (b n)"
    by simp
  then have e: "concat (map (\<lambda>i. hex_byte (a i)) [0..<n]) = concat (map (\<lambda>i. hex_byte (b i)) [0..<n])"
    "hex_byte (a n) = hex_byte (b n)"
    using len [of a] len [of b] by simp_all
  show ?case
  proof (cases "i = n")
    case True
    then show ?thesis using e(2) hex_byte_inj by simp
  next
    case False
    then have "i < n" using Suc.prems(2) by simp
    then show ?thesis using Suc.IH [OF e(1)] by simp
  qed
qed

lemma length_interior_bytes:
  "length (interior_bytes b lines) = nat lines * nat XSIZE"
proof -
  have "length (interior_bytes b lines) = sum_list (map (\<lambda>r. nat XSIZE) [1..lines])"
    unfolding interior_bytes_def length_concat map_map comp_def by simp
  then show ?thesis by (simp add: sum_list_triv)
qed

lemma size_t_small: "0 \<le> n \<Longrightarrow> n < 2 ^ 31 \<Longrightarrow> size_t n = nat n"
  by (simp add: size_t_def)

text \<open>
  The failures that \<open>main\<close> does report: a wrong number of arguments aborts the run; a
  failed allocation of \<open>to\<close>, or of a device buffer, ends it with the status 1 and a
  message, before anything is uploaded.
\<close>

lemma host_to_failure_reported:
  assumes "argc e = 3" "calloc_from_ok e" "\<not> calloc_to_ok e" "0 \<le> arg_lines e"
  shows "main e = Exit 1 ''ERROR: failure allocating host memory\<newline>''"
proof -
  obtain g where "initConfig (rng e) (Ptr (calloc (arg_lines e + 2))) (arg_lines e) = Some (Ptr g)"
    using initConfig_Ptr [OF assms(4), of "rng e"] by blast
  then show ?thesis
    using assms by (simp add: main_def main_simulation_def main_from_def main_to_def)
qed

lemma device_failure_reported:
  assumes "argc e = 3" "calloc_from_ok e" "calloc_to_ok e" "0 \<le> arg_lines e"
    and "\<not> cudaMalloc_from_ok e \<or> \<not> cudaMalloc_to_ok e"
  shows "main e = Exit 1 ''ERROR: failure allocating device memory\<newline>''"
proof -
  obtain g where "initConfig (rng e) (Ptr (calloc (arg_lines e + 2))) (arg_lines e) = Some (Ptr g)"
    using initConfig_Ptr [OF assms(4), of "rng e"] by blast
  moreover have "pFrom (main_device e) = 0 \<or> pTo (main_device e) = 0"
    using assms(5) by (auto simp: main_device_def cudaMalloc_def split: prod.splits)
  ultimately show ?thesis
    using assms(1-3) by (simp add: main_def main_simulation_def main_from_def main_to_def Let_def)
qed

lemma wrong_argument_count: "argc e \<noteq> 3 \<Longrightarrow> main e = Aborted"
  by (simp add: main_def main_simulation_def)

section \<open>Launches of the kernels\<close>

subsection \<open>Launches of \<open>boundary\<close>\<close>

lemma mem_set_if: "(x \<in> set (if c then xs else [])) = (c \<and> x \<in> set xs)"
  by simp

lemma boundary_ops_cases:
  "op \<in> set (boundary_ops lines x y) \<longleftrightarrow>
     (y = lines - 1 \<and> op = ((y + 2, x + 1), (1, x + 1)))
     \<or> (y = 0 \<and> op = ((y, x + 1), (lines, x + 1)))
     \<or> (x = 0 \<and> op = ((y + 1, x), (y + 1, XSIZE)))
     \<or> (x = XSIZE - 1 \<and> op = ((y + 1, x + 2), (y + 1, 1)))
     \<or> ((x = 0 \<and> y = 0) \<and> (op = ((0, 0), (lines, XSIZE)) \<or> op = ((0, XSIZE + 1), (lines, 1))
           \<or> op = ((lines + 1, 0), (1, XSIZE)) \<or> op = ((lines + 1, XSIZE + 1), (1, 1))))"
  unfolding boundary_ops_def set_append Un_iff mem_set_if
  by (simp only: list.set insert_iff empty_iff simp_thms)

lemma boundary_ops_not_interior:
  "op \<in> set (boundary_ops lines x y) \<Longrightarrow> \<not> interior lines (fst op)"
  unfolding boundary_ops_cases
  by (elim disjE conjE) (simp_all add: interior_def)

lemma boundary_ops_torus:
  assumes "op \<in> set (boundary_ops lines x y)" "0 \<le> x" "x < XSIZE" "0 \<le> y" "y < lines"
  shows "interior lines (snd op) \<and> snd op = wrap lines (fst op) \<and> halo lines (fst op)"
  using assms unfolding boundary_ops_cases
  by (elim disjE conjE) (simp_all add: interior_def wrap_def halo_def in_grid_def)

lemma assign_op_Some:
  "assign_op op b = Some b' \<longleftrightarrow>
     in_buffer b (snd op) \<and> in_buffer b (fst op) \<and> b' = b\<lparr>cells := (cells b)(fst op := cells b (snd op))\<rparr>"
  by (simp add: assign_op_def assign_Some)

lemma in_grid_in_buffer: "nrows b = lines + 2 \<Longrightarrow> in_buffer b p = in_grid lines p"
  by (auto simp: in_buffer_def in_grid_def)

lemma interior_in_grid: "interior lines p \<Longrightarrow> in_grid lines p"
  by (auto simp: interior_def in_grid_def)

lemma halo_in_grid: "halo lines p \<Longrightarrow> in_grid lines p"
  by (simp add: halo_def)

lemma sched_ops_written:
  "set sched = set (grid_threads numBlocks threadsPerBlock) \<Longrightarrow>
     (\<Union>op \<in> set (sched_ops lines sched). {fst op}) = boundary_written lines"
  by (auto simp: sched_ops_def boundary_written_def)

lemma sched_ops_torus:
  assumes "set sched = set (grid_threads numBlocks threadsPerBlock)" "launch_height \<le> lines"
    and "op \<in> set (sched_ops lines sched)"
  shows "interior lines (snd op) \<and> snd op = wrap lines (fst op) \<and> halo lines (fst op)"
proof -
  obtain t where t: "t \<in> set (grid_threads numBlocks threadsPerBlock)"
      "op \<in> set (boundary_ops lines (thread_x t) (thread_y t))"
    using assms(1,3) by (auto simp: sched_ops_def)
  have "0 \<le> thread_x t" "thread_x t < XSIZE" "0 \<le> thread_y t" "thread_y t < lines"
    using thread_range [OF t(1)] assms(2) by auto
  then show ?thesis by (rule boundary_ops_torus [OF t(2)])
qed

text \<open>
  When \<open>lines\<close> is at least the number of threads along \<open>y\<close>, every assignment of a
  launch of \<open>boundary\<close> reads an interior cell and writes a halo cell.  The outcome is then
  the same for every order of the single assignments, so it is the outcome of every
  interleaving of the threads, not only of those that run one thread after the other.
\<close>

lemma assignments_any_order:
  assumes "set ops = set (sched_ops lines (grid_threads numBlocks threadsPerBlock))"
    and "launch_height \<le> lines" and "nrows buf = lines + 2"
  shows "\<exists>buf'. launch assign_op ops buf = Some buf' \<and> nrows buf' = lines + 2 \<and>
           (\<forall>p. cells buf' p = (if p \<in> boundary_written lines then cells buf (wrap lines p)
                                 else cells buf p))"
proof -
  let ?Inv = "\<lambda>b::buffer. nrows b = lines + 2 \<and> (\<forall>p. interior lines p \<longrightarrow> cells b p = cells buf p)"
  let ?ops = ops
  have step: "\<exists>b'. assign_op op b = Some b' \<and> ?Inv b'
        \<and> (\<forall>d. cells b' d = (if d \<in> {fst op} then cells buf (wrap lines d) else cells b d))"
    if "op \<in> set ?ops" "?Inv b" for op b
  proof -
    have "op \<in> set (sched_ops lines (grid_threads numBlocks threadsPerBlock))"
      using that(1) assms(1) by simp
    note tor = sched_ops_torus [OF refl assms(2) this]
    let ?b' = "b\<lparr>cells := (cells b)(fst op := cells b (snd op))\<rparr>"
    have nb: "nrows b = lines + 2" using that(2) by simp
    have "in_buffer b (snd op)"
      unfolding in_grid_in_buffer [OF nb] using tor interior_in_grid by blast
    moreover have "in_buffer b (fst op)"
      unfolding in_grid_in_buffer [OF nb] using tor halo_in_grid by blast
    ultimately have "in_buffer b (snd op)" "in_buffer b (fst op)" by blast+
    then have "assign_op op b = Some ?b'" by (simp add: assign_op_Some)
    moreover have src: "cells b (snd op) = cells buf (snd op)" using that(2) tor by blast
    moreover have "\<not> interior lines (fst op)" using tor by (simp add: halo_def)
    then have "?Inv ?b'" using that(2) by auto
    moreover have "\<forall>d. cells ?b' d = (if d \<in> {fst op} then cells buf (wrap lines d) else cells b d)"
      using src tor by simp
    ultimately show ?thesis by blast
  qed
  have ex: "\<exists>b'. launch assign_op ?ops buf = Some b' \<and> ?Inv b'"
  proof (rule launch_succeeds [where Inv = ?Inv])
    show "?Inv buf" using assms(3) by simp
    fix op s assume "op \<in> set ?ops" "?Inv s"
    then show "\<exists>s'. assign_op op s = Some s' \<and> ?Inv s'" using step [of op s] by blast
  qed
  then obtain b' where b': "launch assign_op ?ops buf = Some b'" "?Inv b'" by blast
  have "?Inv b' \<and> (\<forall>d. cells b' d = (if d \<in> (\<Union>op\<in>set ?ops. {fst op})
            then cells buf (wrap lines d) else cells buf d))"
  proof (rule launch_cells [OF b'(1), where Inv = ?Inv])
    show "?Inv buf" using assms(3) by simp
    fix op s s1 assume a: "op \<in> set ?ops" "?Inv s" "assign_op op s = Some s1"
    obtain s2 where "assign_op op s = Some s2" "?Inv s2"
      "\<forall>d. cells s2 d = (if d \<in> {fst op} then cells buf (wrap lines d) else cells s d)"
      using step [OF a(1,2)] by blast
    then show "?Inv s1 \<and> (\<forall>d. cells s1 d = (if d \<in> {fst op} then cells buf (wrap lines d) else cells s d))"
      using a(3) by simp
  qed
  then show ?thesis
    using b' unfolding assms(1) sched_ops_written [OF refl] by auto
qed

lemma launch_boundary_torus:
  assumes "set sched = set (grid_threads numBlocks threadsPerBlock)"
    and "launch_height \<le> lines" and "nrows buf = lines + 2"
  shows "\<exists>buf'. launch_boundary sched buf lines = Some buf' \<and> nrows buf' = lines + 2 \<and>
           (\<forall>p. cells buf' p = (if p \<in> boundary_written lines then cells buf (wrap lines p)
                                 else cells buf p))"
proof -
  have "set (sched_ops lines sched) = set (sched_ops lines (grid_threads numBlocks threadsPerBlock))"
    unfolding sched_ops_def using assms(1) by simp
  then show ?thesis
    unfolding launch_boundary_ops sched_ops_def [symmetric]
    using assms(2,3) by (rule assignments_any_order)
qed

lemma boundary_written_iff:
  "p \<in> boundary_written lines \<longleftrightarrow>
     (\<exists>x y s. 0 \<le> x \<and> x < XSIZE \<and> 0 \<le> y \<and> y < launch_height \<and> (p, s) \<in> set (boundary_ops lines x y))"
proof
  assume "p \<in> boundary_written lines"
  then obtain t s where t: "t \<in> set (grid_threads numBlocks threadsPerBlock)"
      "(p, s) \<in> set (boundary_ops lines (thread_x t) (thread_y t))"
    by (auto simp: boundary_written_def)
  with thread_range [OF t(1)] show "\<exists>x y s. 0 \<le> x \<and> x < XSIZE \<and> 0 \<le> y \<and> y < launch_height
      \<and> (p, s) \<in> set (boundary_ops lines x y)"
    by blast
next
  assume "\<exists>x y s. 0 \<le> x \<and> x < XSIZE \<and> 0 \<le> y \<and> y < launch_height \<and> (p, s) \<in> set (boundary_ops lines x y)"
  then obtain x y s where xy: "0 \<le> x" "x < XSIZE" "0 \<le> y" "y < launch_height"
      "(p, s) \<in> set (boundary_ops lines x y)"
    by blast
  obtain t where "t \<in> set (grid_threads numBlocks threadsPerBlock)" "thread_x t = x" "thread_y t = y"
    using thread_exists [OF xy(1-4)] by blast
  with xy(5) show "p \<in> boundary_written lines"
    unfolding boundary_written_def by force
qed

lemma boundary_written_halo:
  assumes "p \<in> boundary_written lines" "launch_height \<le> lines"
  shows "halo lines p"
proof -
  obtain x y s where xy: "0 \<le> x" "x < XSIZE" "0 \<le> y" "y < launch_height"
      "(p, s) \<in> set (boundary_ops lines x y)"
    using assms(1) unfolding boundary_written_iff by blast
  have "y < lines" using xy(4) assms(2) by simp
  from boundary_ops_torus [OF xy(5) xy(1,2,3) this] show ?thesis by simp
qed

lemma written_by:
  assumes "(p, s) \<in> set (boundary_ops lines x y)" "0 \<le> x" "x < XSIZE" "0 \<le> y" "y < launch_height"
  shows "p \<in> boundary_written lines"
  unfolding boundary_written_iff using assms by blast

lemma ops_top: "((0, x + 1), (lines, x + 1)) \<in> set (boundary_ops lines x 0)"
  unfolding boundary_ops_cases by simp

lemma ops_bottom: "((lines + 1, x + 1), (1, x + 1)) \<in> set (boundary_ops lines x (lines - 1))"
  unfolding boundary_ops_cases by simp

lemma ops_left: "((y + 1, 0), (y + 1, XSIZE)) \<in> set (boundary_ops lines 0 y)"
  unfolding boundary_ops_cases by simp

lemma ops_right: "((y + 1, XSIZE + 1), (y + 1, 1)) \<in> set (boundary_ops lines (XSIZE - 1) y)"
  unfolding boundary_ops_cases by simp

lemma ops_corners:
  "((0, 0), (lines, XSIZE)) \<in> set (boundary_ops lines 0 0)"
  "((0, XSIZE + 1), (lines, 1)) \<in> set (boundary_ops lines 0 0)"
  "((lines + 1, 0), (1, XSIZE)) \<in> set (boundary_ops lines 0 0)"
  "((lines + 1, XSIZE + 1), (1, 1)) \<in> set (boundary_ops lines 0 0)"
  unfolding boundary_ops_cases by simp_all

lemma launch_height_pos: "0 < launch_height"
  by (simp add: launch_height_eq)

lemma halo_written:
  assumes "halo launch_height p"
  shows "p \<in> boundary_written launch_height"
proof -
  let ?L = launch_height
  obtain r c where p: "p = (r, c)" by (cases p)
  have g: "0 \<le> r" "r \<le> ?L + 1" "0 \<le> c" "c \<le> XSIZE + 1"
    and ni: "\<not> (1 \<le> r \<and> r \<le> ?L \<and> 1 \<le> c \<and> c \<le> XSIZE)"
    using assms by (auto simp: p halo_def in_grid_def interior_def)
  note z = order_refl [of "0::int"] XSIZE_pos launch_height_pos
  show ?thesis
  proof (cases "c = 0 \<or> c = XSIZE + 1")
    case True
    show ?thesis
    proof (cases "r = 0 \<or> r = ?L + 1")
      case True
      with \<open>c = 0 \<or> c = XSIZE + 1\<close>
      consider "p = (0, 0)" | "p = (0, XSIZE + 1)" | "p = (?L + 1, 0)" | "p = (?L + 1, XSIZE + 1)"
        unfolding p by blast
      then show ?thesis
        by cases (simp_all only: written_by [OF ops_corners(1) z(1,2,1,3)]
            written_by [OF ops_corners(2) z(1,2,1,3)] written_by [OF ops_corners(3) z(1,2,1,3)]
            written_by [OF ops_corners(4) z(1,2,1,3)])
    next
      case False
      then have r: "0 \<le> r - 1" "r - 1 < ?L" using g by auto
      from \<open>c = 0 \<or> c = XSIZE + 1\<close> show ?thesis
      proof
        assume c: "c = 0"
        have "(r - 1 + 1, 0) \<in> boundary_written ?L"
          by (rule written_by [OF ops_left z(1,2) r])
        then show ?thesis by (simp add: p c)
      next
        assume c: "c = XSIZE + 1"
        have x: "0 \<le> XSIZE - 1" "XSIZE - 1 < XSIZE" using XSIZE_pos by auto
        have "(r - 1 + 1, XSIZE + 1) \<in> boundary_written ?L"
          by (rule written_by [OF ops_right x r])
        then show ?thesis by (simp add: p c)
      qed
    qed
  next
    case False
    then have c: "0 \<le> c - 1" "c - 1 < XSIZE" using g by auto
    from False ni g have "r = 0 \<or> r = ?L + 1" by auto
    then show ?thesis
    proof
      assume r: "r = 0"
      have "(0, c - 1 + 1) \<in> boundary_written ?L"
        by (rule written_by [OF ops_top c z(1,3)])
      then show ?thesis by (simp add: p r)
    next
      assume r: "r = ?L + 1"
      have y: "0 \<le> ?L - 1" "?L - 1 < ?L" using launch_height_pos by auto
      have "(?L + 1, c - 1 + 1) \<in> boundary_written ?L"
        by (rule written_by [OF ops_bottom c y])
      then show ?thesis by (simp add: p r)
    qed
  qed
qed

lemma bottom_row_not_written:
  assumes "launch_height < lines" "1 \<le> c" "c \<le> XSIZE"
  shows "(lines + 1, c) \<notin> boundary_written lines"
proof
  assume "(lines + 1, c) \<in> boundary_written lines"
  then obtain x y s where xy: "0 \<le> x" "x < XSIZE" "0 \<le> y" "y < launch_height"
      "((lines + 1, c), s) \<in> set (boundary_ops lines x y)"
    unfolding boundary_written_iff by blast
  from xy(5) show False
    unfolding boundary_ops_cases using xy(1-4) assms
    by (elim disjE conjE) simp_all
qed

lemma launch_preserves:
  assumes "launch body sched s0 = Some s'"
    and "Inv s0"
    and "\<And>t s s1. t \<in> set sched \<Longrightarrow> Inv s \<Longrightarrow> body t s = Some s1 \<Longrightarrow> Inv s1"
  shows "Inv s'"
  using assms
proof (induction sched arbitrary: s0)
  case Nil
  then show ?case by simp
next
  case (Cons t ts)
  from Cons.prems(1) obtain s1 where s1: "body t s0 = Some s1" "launch body ts s1 = Some s'"
    by (auto split: option.splits)
  have "Inv s1" using Cons.prems(3) [of t s0 s1] Cons.prems(2) s1(1) by simp
  then show ?case
    by (rule Cons.IH [OF s1(2)]) (use Cons.prems(3) in auto)
qed

lemma sched_ops_not_interior:
  "op \<in> set (sched_ops lines sched) \<Longrightarrow> \<not> interior lines (fst op)"
proof -
  assume "op \<in> set (sched_ops lines sched)"
  then obtain t where "op \<in> set (boundary_ops lines (thread_x t) (thread_y t))"
    unfolding sched_ops_def by auto
  then show ?thesis by (rule boundary_ops_not_interior)
qed

lemma launch_boundary_frame:
  assumes "launch_boundary sched buf lines = Some buf'"
  shows "nrows buf' = nrows buf \<and> (\<forall>p. interior lines p \<longrightarrow> cells buf' p = cells buf p)"
proof -
  let ?Inv = "\<lambda>b::buffer. nrows b = nrows buf \<and> (\<forall>p. interior lines p \<longrightarrow> cells b p = cells buf p)"
  have l: "launch assign_op (sched_ops lines sched) buf = Some buf'"
    using assms unfolding launch_boundary_ops sched_ops_def .
  show ?thesis
  proof (rule launch_preserves [OF l, where Inv = ?Inv])
    show "?Inv buf" by simp
    fix op s s1
    assume a: "op \<in> set (sched_ops lines sched)" "?Inv s" "assign_op op s = Some s1"
    have "\<not> interior lines (fst op)" using a(1) by (rule sched_ops_not_interior)
    then show "?Inv s1" using a(2,3) unfolding assign_op_Some by auto
  qed
qed

lemma launch_boundary_binary:
  assumes "launch_boundary sched buf lines = Some buf'" "binary buf"
  shows "binary buf'"
proof -
  have l: "launch assign_op (sched_ops lines sched) buf = Some buf'"
    using assms unfolding launch_boundary_ops sched_ops_def by simp
  show ?thesis
  proof (rule launch_preserves [OF l, where Inv = binary])
    show "binary buf" by (rule assms(2))
    fix op s s1
    assume a: "binary s" "assign_op op s = Some s1"
    then have inb: "in_buffer s (snd op)"
      and s1: "s1 = s\<lparr>cells := (cells s)(fst op := cells s (snd op))\<rparr>"
      unfolding assign_op_Some by blast+
    have v: "cells s (snd op) = 0 \<or> cells s (snd op) = 1"
      using a(1) inb unfolding binary_def by blast
    show "binary s1"
      unfolding binary_def
    proof (intro allI impI)
      fix p assume "in_buffer s1 p"
      then have "in_buffer s p" by (simp add: s1 in_buffer_def)
      then have "cells s p = 0 \<or> cells s p = 1" using a(1) unfolding binary_def by blast
      with v show "cells s1 p = 0 \<or> cells s1 p = 1"
        by (cases "p = fst op") (simp_all add: s1)
    qed
  qed
qed

lemma launch_boundary_out_of_bounds:
  assumes "set sched = set (grid_threads numBlocks threadsPerBlock)"
    and "nrows buf = lines + 2" and "0 \<le> lines" and "lines + 1 < launch_height"
  shows "launch_boundary sched buf lines = None"
proof -
  let ?Inv = "\<lambda>b::buffer. nrows b = lines + 2"
  let ?op = "((lines + 1 + 1, 0), (lines + 1 + 1, XSIZE))"
  obtain t where t: "t \<in> set sched" "thread_x t = 0" "thread_y t = lines + 1"
    using thread_exists [of 0 "lines + 1"] assms(1,3,4) XSIZE_pos by auto
  have "?op \<in> set (boundary_ops lines (thread_x t) (thread_y t))"
    unfolding t(2,3) by (rule ops_left)
  then have mem: "?op \<in> set (sched_ops lines sched)"
    unfolding sched_ops_def using t(1) by auto
  have "launch assign_op (sched_ops lines sched) buf = None"
  proof (rule launch_fails [OF _ mem, where Inv = ?Inv])
    show "?Inv buf" by (rule assms(2))
    show "assign_op ?op s = None" if "?Inv s" for s
      using that by (simp add: assign_op_def assign_None in_buffer_def)
    show "?Inv s'" if "?Inv s" "assign_op u s = Some s'" for u s s'
      using that unfolding assign_op_Some by auto
  qed
  then show ?thesis unfolding launch_boundary_ops sched_ops_def .
qed

subsection \<open>Launches of \<open>simulate\<close>\<close>

lemma simulate_thread_Some:
  "simulate threadsPerBlock (fst t) (snd t) from to lines = Some to' \<longleftrightarrow>
     (let p = (thread_y t + 1, thread_x t + 1) in
      readable from p \<and> 0 \<le> nsum from p \<and> nsum from p < 10 \<and> in_buffer to p \<and>
      to' = to\<lparr>cells := (cells to)(p := anneal ! nat (nsum from p))\<rparr>)"
  unfolding simulate_Some thread_x_def thread_y_def ..

lemma simulate_written:
  "(\<Union>t \<in> set (grid_threads numBlocks threadsPerBlock). {(thread_y t + 1, thread_x t + 1)})
     = {p. interior launch_height p}"
proof (rule set_eqI)
  fix p :: "int \<times> int"
  obtain r c where p: "p = (r, c)" by (cases p)
  show "p \<in> (\<Union>t \<in> set (grid_threads numBlocks threadsPerBlock). {(thread_y t + 1, thread_x t + 1)})
      \<longleftrightarrow> p \<in> {p. interior launch_height p}"
  proof
    assume "p \<in> (\<Union>t \<in> set (grid_threads numBlocks threadsPerBlock). {(thread_y t + 1, thread_x t + 1)})"
    then obtain t where t: "t \<in> set (grid_threads numBlocks threadsPerBlock)"
        "r = thread_y t + 1" "c = thread_x t + 1"
      unfolding p by auto
    show "p \<in> {p. interior launch_height p}"
      using thread_range [OF t(1)] unfolding p t(2,3) by (simp add: interior_def)
  next
    assume "p \<in> {p. interior launch_height p}"
    then have "0 \<le> c - 1" "c - 1 < XSIZE" "0 \<le> r - 1" "r - 1 < launch_height"
      unfolding p by (simp_all add: interior_def)
    then obtain t where "t \<in> set (grid_threads numBlocks threadsPerBlock)"
        "thread_x t = c - 1" "thread_y t = r - 1"
      using thread_exists by blast
    then show "p \<in> (\<Union>t \<in> set (grid_threads numBlocks threadsPerBlock). {(thread_y t + 1, thread_x t + 1)})"
      unfolding p by force
  qed
qed

lemma launch_simulate_cells:
  assumes "launch_simulate sched from to lines = Some to'"
    and "set sched = set (grid_threads numBlocks threadsPerBlock)"
  shows "nrows to' = nrows to \<and>
         (\<forall>p. cells to' p = (if interior launch_height p then anneal ! nat (nsum from p) else cells to p))"
proof -
  let ?Inv = "\<lambda>b::buffer. nrows b = nrows to"
  let ?W = "\<lambda>t. {(thread_y t + 1, thread_x t + 1)}"
  have "?Inv to' \<and> (\<forall>d. cells to' d = (if d \<in> (\<Union>t\<in>set sched. ?W t) then anneal ! nat (nsum from d)
           else cells to d))"
  proof (rule launch_cells [OF assms(1) [unfolded launch_simulate_def], where Inv = ?Inv])
    show "?Inv to" by simp
    fix t s s1
    assume "?Inv s" "simulate threadsPerBlock (fst t) (snd t) from s lines = Some s1"
    then show "?Inv s1 \<and> (\<forall>d. cells s1 d = (if d \<in> ?W t then anneal ! nat (nsum from d) else cells s d))"
      unfolding simulate_thread_Some Let_def by auto
  qed
  then show ?thesis
    unfolding assms(2) simulate_written by simp
qed

lemma nsum_range_grid:
  assumes "interior L p" and "\<forall>q. in_grid L q \<longrightarrow> cells b q = 0 \<or> cells b q = 1"
  shows "0 \<le> nsum b p \<and> nsum b p \<le> 9"
proof -
  let ?b = "b\<lparr>nrows := L + 2\<rparr>"
  have "readable ?b p" using interior_readable [OF assms(1), of ?b] by simp
  moreover have "\<forall>q. in_buffer ?b q \<longrightarrow> cells ?b q = 0 \<or> cells ?b q = 1"
    using assms(2) in_grid_in_buffer [of ?b L] by simp
  ultimately have "0 \<le> nsum ?b p \<and> nsum ?b p \<le> 9" by (rule nsum_range)
  then show ?thesis by (simp add: nsum_def)
qed

lemma readable_mono:
  "readable b p \<Longrightarrow> nrows b \<le> nrows b' \<Longrightarrow> readable b' p"
  by (auto simp: readable_def in_buffer_def)

lemma launch_simulate_succeeds:
  assumes "set sched = set (grid_threads numBlocks threadsPerBlock)"
    and "launch_height \<le> lines" and "nrows from = lines + 2" and "nrows to = lines + 2"
    and "\<forall>q. in_grid launch_height q \<longrightarrow> cells from q = 0 \<or> cells from q = 1"
  shows "\<exists>to'. launch_simulate sched from to lines = Some to'"
proof -
  let ?Inv = "\<lambda>b::buffer. nrows b = lines + 2"
  have "\<exists>to'. launch (\<lambda>t b. simulate threadsPerBlock (fst t) (snd t) from b lines) sched to = Some to'
          \<and> ?Inv to'"
  proof (rule launch_succeeds [where Inv = ?Inv])
    show "?Inv to" by (rule assms(4))
    fix t s assume t: "t \<in> set sched" and s: "?Inv s"
    let ?p = "(thread_y t + 1, thread_x t + 1)"
    have i: "interior launch_height ?p"
      using thread_range [of t] t assms(1) by (simp add: interior_def)
    have "readable (from\<lparr>nrows := launch_height + 2\<rparr>) ?p"
      using interior_readable [OF i, of "from\<lparr>nrows := launch_height + 2\<rparr>"] by simp
    then have r: "readable from ?p"
      by (rule readable_mono) (use assms(2,3) in simp)
    have n: "0 \<le> nsum from ?p \<and> nsum from ?p \<le> 9"
      using nsum_range_grid [OF i assms(5)] .
    have w: "in_buffer s ?p"
      using i assms(2) s by (simp add: in_buffer_def interior_def)
    show "\<exists>s'. simulate threadsPerBlock (fst t) (snd t) from s lines = Some s' \<and> ?Inv s'"
      unfolding simulate_thread_Some Let_def using r n w s by simp
  qed
  then show ?thesis unfolding launch_simulate_def by blast
qed

lemma launch_simulate_out_of_bounds:
  assumes "set sched = set (grid_threads numBlocks threadsPerBlock)"
    and "nrows from = lines + 2" and "lines < launch_height"
  shows "launch_simulate sched from to lines = None"
proof -
  obtain t where t: "t \<in> set sched" "thread_x t = 0" "thread_y t = launch_height - 1"
    using thread_exists [of 0 "launch_height - 1"] assms(1) XSIZE_pos launch_height_pos by auto
  have "\<not> readable from (thread_y t + 1, thread_x t + 1)"
    unfolding t(2,3) using assms(2,3) by (simp add: readable_def in_buffer_def)
  then have none: "simulate threadsPerBlock (fst t) (snd t) from s lines = None" for s
    using simulate_thread_Some [of t "from" s lines] by (cases "simulate threadsPerBlock (fst t) (snd t) from s lines") (auto simp: Let_def)
  show ?thesis
    unfolding launch_simulate_def
    by (rule launch_fails [OF _ t(1), where Inv = "\<lambda>s. True"]) (simp_all add: none)
qed

section \<open>The loop of \<open>main\<close>\<close>

lemma step_roles:
  assumes "pFrom d \<noteq> pTo d"
  shows "map_option roles (step sc lines d) = spec_step sc lines (roles d)"
    and "step sc lines d = Some d' \<Longrightarrow> pFrom d' = pTo d \<and> pTo d' = pFrom d
           \<and> (\<forall>p. p \<noteq> pFrom d \<and> p \<noteq> pTo d \<longrightarrow> mem d' p = mem d p)"
  using assms
  by (auto simp: step_def spec_step_def roles_def Let_def split: Option.bind_splits)

lemma main_loop_roles:
  "0 \<le> i \<Longrightarrow> pFrom d \<noteq> pTo d \<Longrightarrow>
     map_option roles (main_loop sch lines iterations i d)
       = spec_steps sch lines (nat i) (nat (iterations - i)) (roles d)"
proof (induction sch lines iterations i d rule: main_loop.induct)
  case (1 sch lines iterations i d)
  show ?case
  proof (cases "i < iterations")
    case False
    then show ?thesis by (subst main_loop.simps) simp
  next
    case True
    then have n: "nat (iterations - i) = Suc (nat (iterations - (i + 1)))" by simp
    have k: "nat (i + 1) = Suc (nat i)" using "1.prems"(1) by simp
    show ?thesis
    proof (cases "step (sch (nat i)) lines d")
      case None
      then have "spec_step (sch (nat i)) lines (roles d) = None"
        using step_roles(1) [OF "1.prems"(2), of "sch (nat i)" lines] by simp
      then show ?thesis using None True by (subst main_loop.simps) (simp add: n)
    next
      case (Some d')
      then have sp: "spec_step (sch (nat i)) lines (roles d) = Some (roles d')"
        using step_roles(1) [OF "1.prems"(2), of "sch (nat i)" lines] by simp
      have ne: "pFrom d' \<noteq> pTo d'"
        using step_roles(2) [OF "1.prems"(2) Some] "1.prems"(2) by auto
      have "map_option roles (main_loop sch lines iterations (i + 1) d')
          = spec_steps sch lines (nat (i + 1)) (nat (iterations - (i + 1))) (roles d')"
        by (rule "1.IH" [OF True Some _ ne]) (use "1.prems"(1) in simp)
      then show ?thesis
        using Some True sp by (subst main_loop.simps) (simp add: n k)
    qed
  qed
qed

lemma simulation_as_steps:
  assumes "pFrom d \<noteq> pTo d"
  shows "map_option roles (main_loop sch lines iterations 0 d)
           = spec_steps sch lines 0 (nat iterations) (roles d)
         \<and> simulation e d g = do {
              up \<leftarrow> cudaMemcpy (fst (roles d)) g ((arg_lines e + 2) * (XSIZE + 2));
              sd \<leftarrow> spec_steps (schedules e) (arg_lines e) 0 (nat (arg_iterations e)) (up, snd (roles d));
              cudaMemcpy g (fst sd) ((arg_lines e + 2) * (XSIZE + 2))
            }"
proof -
  have a: "map_option roles (main_loop sch lines iterations 0 d)
           = spec_steps sch lines 0 (nat iterations) (roles d)"
    if "pFrom d \<noteq> pTo d" for sch lines iterations d
    using main_loop_roles [of 0 d sch lines iterations] that by simp
  have b: "simulation e d g = do {
              up \<leftarrow> cudaMemcpy (fst (roles d)) g ((arg_lines e + 2) * (XSIZE + 2));
              sd \<leftarrow> spec_steps (schedules e) (arg_lines e) 0 (nat (arg_iterations e)) (up, snd (roles d));
              cudaMemcpy g (fst sd) ((arg_lines e + 2) * (XSIZE + 2))
            }"
  proof (cases "cudaMemcpy (mem d (pFrom d)) g ((arg_lines e + 2) * (XSIZE + 2))")
    case None
    then show ?thesis by (simp add: simulation_def roles_def)
  next
    case (Some up)
    let ?d = "d\<lparr>mem := (mem d)(pFrom d := up)\<rparr>"
    have r: "roles ?d = (up, mem d (pTo d))" using assms by (simp add: roles_def)
    have eq: "spec_steps (schedules e) (arg_lines e) 0 (nat (arg_iterations e)) (up, mem d (pTo d))
        = map_option roles (main_loop (schedules e) (arg_lines e) (arg_iterations e) 0 ?d)"
      using a [of ?d] assms r by simp
    show ?thesis
      using Some
      by (cases "main_loop (schedules e) (arg_lines e) (arg_iterations e) 0 ?d")
        (simp_all add: simulation_def Let_def eq, simp_all add: roles_def eq)
  qed
  show ?thesis using a [OF assms] b by blast
qed

lemma step_undefined:
  assumes "set (snd sc) = set (grid_threads numBlocks threadsPerBlock)"
    and "nrows (mem d (pFrom d)) = lines + 2" and "lines < launch_height"
  shows "step sc lines d = None"
proof (cases "launch_boundary (fst sc) (mem d (pFrom d)) lines")
  case None
  then show ?thesis by (simp add: step_def)
next
  case (Some s)
  have "nrows s = lines + 2" using launch_boundary_frame [OF Some] assms(2) by simp
  then have "launch_simulate (snd sc) s t lines = None" for t
    using assms(1,3) by (intro launch_simulate_out_of_bounds)
  then show ?thesis by (simp add: step_def Some Let_def)
qed

lemma main_simulation_ok:
  assumes "ok_env e" "0 \<le> arg_lines e"
  shows "\<exists>g. initConfig (rng e) (Ptr (calloc (arg_lines e + 2))) (arg_lines e) = Some (Ptr g)
           \<and> nrows g = arg_lines e + 2
           \<and> main_simulation e = (case simulation e (main_device e) g of
                                     None \<Rightarrow> Inl Undefined | Some final \<Rightarrow> Inr final)"
proof -
  note ok = assms(1) [unfolded ok_env_def]
  obtain g where g: "initConfig (rng e) (Ptr (calloc (arg_lines e + 2))) (arg_lines e) = Some (Ptr g)"
    "nrows g = arg_lines e + 2"
    using initConfig_Ptr [OF assms(2), of "rng e"] by blast
  have "main_simulation e = (case simulation e (main_device e) g of
                                     None \<Rightarrow> Inl Undefined | Some final \<Rightarrow> Inr final)"
    using ok g(1)
    by (simp add: main_simulation_def main_from_def main_to_def main_device_ok Let_def)
  with g show ?thesis by blast
qed

lemma simulation_undefined:
  assumes "valid_schedules (schedules e)" and "arg_lines e < launch_height"
    and "1 \<le> arg_iterations e" and "nrows (mem d (pFrom d)) = arg_lines e + 2"
  shows "simulation e d g = None"
proof (cases "cudaMemcpy (mem d (pFrom d)) g ((arg_lines e + 2) * (XSIZE + 2))")
  case None
  then show ?thesis by (simp add: simulation_def)
next
  case (Some up)
  let ?d = "d\<lparr>mem := (mem d)(pFrom d := up)\<rparr>"
  have n: "nrows up = arg_lines e + 2"
    using Some assms(4) by (auto simp: cudaMemcpy_def split: if_splits)
  have s: "set (snd (schedules e 0)) = set (grid_threads numBlocks threadsPerBlock)"
    using assms(1) by (simp add: valid_schedules_def schedule_of_def)
  have "step (schedules e (nat 0)) (arg_lines e) ?d = None"
    using s assms(2) n by (intro step_undefined) simp_all
  then have "main_loop (schedules e) (arg_lines e) (arg_iterations e) 0 ?d = None"
    using assms(3) by (subst main_loop.simps) simp
  then show ?thesis by (simp add: simulation_def Some)
qed

section \<open>Steps and runs with \<open>lines = 131072\<close>\<close>

lemma wrap_interior: "halo L p \<Longrightarrow> 1 \<le> L \<Longrightarrow> interior L (wrap L p)"
  using XSIZE_pos by (auto simp: halo_def in_grid_def interior_def wrap_def)

lemma boundary_written_eq: "p \<in> boundary_written launch_height \<longleftrightarrow> halo launch_height p"
  using boundary_written_halo [of p launch_height] halo_written [of p] by auto

lemma in_grid_cases: "in_grid L p \<longleftrightarrow> interior L p \<or> halo L p"
  by (auto simp: halo_def interior_in_grid)

lemma anneal_binary: "0 \<le> s \<Longrightarrow> s \<le> 9 \<Longrightarrow> anneal ! nat s = 0 \<or> anneal ! nat s = 1"
  by (simp add: anneal_values)

lemma nsum_cong:
  assumes "same_on (in_grid L) a b" "interior L p"
  shows "nsum a p = nsum b p"
proof -
  obtain y x where p: "p = (y, x)" by (cases p)
  have g: "in_grid L (y + i, x + j)" if "i \<in> {-1, 0, 1}" "j \<in> {-1, 0, 1}" for i j
    using assms(2) that unfolding p interior_def in_grid_def by auto
  have e: "cells a (y + i, x + j) = cells b (y + i, x + j)" if "i \<in> {-1, 0, 1}" "j \<in> {-1, 0, 1}" for i j
    using assms(1) g [OF that] unfolding same_on_def by blast
  show ?thesis
    unfolding p nsum_def Let_def fst_conv snd_conv
    using e [of "-1" "-1"] e [of 0 "-1"] e [of 1 "-1"] e [of "-1" 0] e [of 0 0] e [of 1 0]
      e [of "-1" 1] e [of 0 1] e [of 1 1]
    by simp
qed

lemma spec_step_closed:
  assumes "set (fst sc) = set (grid_threads numBlocks threadsPerBlock)"
    and "set (snd sc) = set (grid_threads numBlocks threadsPerBlock)"
    and "nrows S = launch_height + 2" and "nrows T = launch_height + 2"
    and "binary_on (interior launch_height) S"
  shows "\<exists>S' T'. spec_step sc launch_height (S, T) = Some (T', S')
           \<and> nrows S' = launch_height + 2 \<and> nrows T' = launch_height + 2
           \<and> (\<forall>p. cells S' p = (if halo launch_height p then cells S (wrap launch_height p) else cells S p))
           \<and> (\<forall>p. cells T' p = (if interior launch_height p then anneal ! nat (nsum S' p) else cells T p))
           \<and> binary_on (in_grid launch_height) S'
           \<and> binary_on (interior launch_height) T'"
proof -
  let ?L = launch_height
  obtain S' where S': "launch_boundary (fst sc) S ?L = Some S'" "nrows S' = ?L + 2"
      "\<forall>p. cells S' p = (if halo ?L p then cells S (wrap ?L p) else cells S p)"
    using launch_boundary_torus [OF assms(1) order_refl assms(3)]
    unfolding boundary_written_eq by blast
  have S3: "cells S' p = (if halo ?L p then cells S (wrap ?L p) else cells S p)" for p
    using S'(3) by blast
  have binS: "cells S p = 0 \<or> cells S p = 1" if "interior ?L p" for p
    using assms(5) that unfolding binary_on_def by blast
  have L1: "1 \<le> ?L" using launch_height_pos by simp
  have binS': "binary_on (in_grid ?L) S'"
    unfolding binary_on_def
  proof (intro allI impI)
    fix p assume "in_grid ?L p"
    then consider "interior ?L p" | "halo ?L p" unfolding in_grid_cases by blast
    then show "cells S' p = 0 \<or> cells S' p = 1"
    proof cases
      case 1
      then have "\<not> halo ?L p" by (simp add: halo_def)
      then show ?thesis using binS [OF 1] by (simp add: S3)
    next
      case 2
      then have "interior ?L (wrap ?L p)" using L1 by (rule wrap_interior)
      then show ?thesis using binS [of "wrap ?L p"] 2 by (simp add: S3)
    qed
  qed
  then have bin: "\<forall>q. in_grid ?L q \<longrightarrow> cells S' q = 0 \<or> cells S' q = 1"
    unfolding binary_on_def .
  obtain T' where T': "launch_simulate (snd sc) S' T ?L = Some T'"
    using launch_simulate_succeeds [OF assms(2) order_refl S'(2) assms(4) bin] by blast
  note c = launch_simulate_cells [OF T' assms(2)]
  have T3: "cells T' p = (if interior ?L p then anneal ! nat (nsum S' p) else cells T p)" for p
    using c by blast
  have binT': "binary_on (interior ?L) T'"
    unfolding binary_on_def
  proof (intro allI impI)
    fix p assume i: "interior ?L p"
    have "0 \<le> nsum S' p \<and> nsum S' p \<le> 9" using nsum_range_grid [OF i bin] .
    then show "cells T' p = 0 \<or> cells T' p = 1"
      using i anneal_binary [of "nsum S' p"] by (simp add: T3)
  qed
  have "spec_step sc ?L (S, T) = Some (T', S')"
    by (simp add: spec_step_def S'(1) T')
  moreover have "nrows T' = ?L + 2" using c assms(4) by simp
  ultimately show ?thesis using S'(2,3) c binS' binT' by blast
qed

lemma spec_step_related:
  assumes "set (fst sc1) = set (grid_threads numBlocks threadsPerBlock)"
    and "set (snd sc1) = set (grid_threads numBlocks threadsPerBlock)"
    and "set (fst sc2) = set (grid_threads numBlocks threadsPerBlock)"
    and "set (snd sc2) = set (grid_threads numBlocks threadsPerBlock)"
    and "related k x y"
  shows "\<exists>x' y'. spec_step sc1 launch_height x = Some x' \<and> spec_step sc2 launch_height y = Some y'
           \<and> related (Suc k) x' y' \<and> (\<forall>p. \<not> interior launch_height p \<longrightarrow> cells (fst x') p = cells (snd x) p)"
proof -
  let ?L = launch_height
  obtain S1 T1 S2 T2 where x: "x = (S1, T1)" and y: "y = (S2, T2)" by (cases x, cases y) auto
  note r = assms(5) [unfolded related_def x y fst_conv snd_conv]
  have same: "cells S1 p = cells S2 p" if "interior ?L p" for p
    using r that unfolding same_on_def by blast
  have bin1: "binary_on (interior ?L) S1" using r by blast
  then have bin2: "binary_on (interior ?L) S2"
    unfolding binary_on_def using same by auto
  obtain S1' T1' where 1: "spec_step sc1 ?L (S1, T1) = Some (T1', S1')"
      "nrows S1' = ?L + 2" "nrows T1' = ?L + 2"
      "\<forall>p. cells S1' p = (if halo ?L p then cells S1 (wrap ?L p) else cells S1 p)"
      "\<forall>p. cells T1' p = (if interior ?L p then anneal ! nat (nsum S1' p) else cells T1 p)"
      "binary_on (interior ?L) T1'"
    using spec_step_closed [OF assms(1,2) _ _ bin1, of T1] r by blast
  obtain S2' T2' where 2: "spec_step sc2 ?L (S2, T2) = Some (T2', S2')"
      "nrows S2' = ?L + 2" "nrows T2' = ?L + 2"
      "\<forall>p. cells S2' p = (if halo ?L p then cells S2 (wrap ?L p) else cells S2 p)"
      "\<forall>p. cells T2' p = (if interior ?L p then anneal ! nat (nsum S2' p) else cells T2 p)"
    using spec_step_closed [OF assms(3,4) _ _ bin2, of T2] r by blast
  have S1': "cells S1' p = (if halo ?L p then cells S1 (wrap ?L p) else cells S1 p)" for p
    using 1(4) by blast
  have S2': "cells S2' p = (if halo ?L p then cells S2 (wrap ?L p) else cells S2 p)" for p
    using 2(4) by blast
  have T1': "cells T1' p = (if interior ?L p then anneal ! nat (nsum S1' p) else cells T1 p)" for p
    using 1(5) by blast
  have T2': "cells T2' p = (if interior ?L p then anneal ! nat (nsum S2' p) else cells T2 p)" for p
    using 2(5) by blast
  have L1: "1 \<le> ?L" using launch_height_pos by simp
  have sS: "same_on (in_grid ?L) S1' S2'"
    unfolding same_on_def
  proof (intro allI impI)
    fix p assume "in_grid ?L p"
    then consider "interior ?L p" | "halo ?L p" unfolding in_grid_cases by blast
    then show "cells S1' p = cells S2' p"
    proof cases
      case 1
      then have "\<not> halo ?L p" by (simp add: halo_def)
      then show ?thesis using same [OF 1] by (simp add: S1' S2')
    next
      case 2
      then show ?thesis using same [OF wrap_interior [OF 2 L1]] by (simp add: S1' S2')
    qed
  qed
  have sTi: "cells T1' p = cells T2' p" if "interior ?L p" for p
    using nsum_cong [OF sS that] that by (simp add: T1' T2')
  have sT: "same_on (in_grid ?L) T1' T2'" if "same_on (in_grid ?L) T1 T2"
    unfolding same_on_def
  proof (intro allI impI)
    fix p assume g: "in_grid ?L p"
    show "cells T1' p = cells T2' p"
    proof (cases "interior ?L p")
      case True
      then show ?thesis by (rule sTi)
    next
      case False
      have "cells T1 p = cells T2 p" using that g unfolding same_on_def by blast
      with False show ?thesis by (simp add: T1' T2')
    qed
  qed
  have "related (Suc k) (T1', S1') (T2', S2')"
    unfolding related_def fst_conv snd_conv
  proof (intro conjI impI)
    show "same_on (interior ?L) T1' T2'" unfolding same_on_def using sTi by blast
    show "same_on (in_grid ?L) T1' T2'" if "Suc k \<noteq> 1"
    proof (rule sT)
      from that have "1 \<le> k" by simp
      then show "same_on (in_grid ?L) T1 T2" using r by blast
    qed
  qed (use 1(2,3,6) 2(2,3) sS in simp_all)
  moreover have "\<forall>p. \<not> interior ?L p \<longrightarrow> cells (fst (T1', S1')) p = cells (snd x) p"
    by (simp add: T1' x)
  ultimately show ?thesis using 1(1) 2(1) unfolding x y by blast
qed

lemma spec_steps_related:
  assumes "valid_schedules sch1" "valid_schedules sch2" "related k x y"
  shows "\<exists>x' y'. spec_steps sch1 launch_height k n x = Some x'
           \<and> spec_steps sch2 launch_height k n y = Some y' \<and> related (k + n) x' y'"
  using assms(3)
proof (induction n arbitrary: k x y)
  case 0
  then show ?case by simp
next
  case (Suc n)
  have v: "set (fst (sch1 k)) = set (grid_threads numBlocks threadsPerBlock)"
    "set (snd (sch1 k)) = set (grid_threads numBlocks threadsPerBlock)"
    "set (fst (sch2 k)) = set (grid_threads numBlocks threadsPerBlock)"
    "set (snd (sch2 k)) = set (grid_threads numBlocks threadsPerBlock)"
    using assms(1,2) unfolding valid_schedules_def schedule_of_def by blast+
  obtain x1 y1 where s: "spec_step (sch1 k) launch_height x = Some x1"
      "spec_step (sch2 k) launch_height y = Some y1" "related (Suc k) x1 y1"
    using spec_step_related [OF v Suc.prems] by blast
  obtain x' y' where "spec_steps sch1 launch_height (Suc k) n x1 = Some x'"
      "spec_steps sch2 launch_height (Suc k) n y1 = Some y'" "related (Suc k + n) x' y'"
    using Suc.IH [OF s(3)] by blast
  then show ?case using s(1,2) by simp
qed

lemma final_grid_steps:
  assumes "ok_env e" "0 \<le> arg_lines e"
  shows "\<exists>g. initConfig (rng e) (Ptr (calloc (arg_lines e + 2))) (arg_lines e) = Some (Ptr g)
           \<and> nrows g = arg_lines e + 2
           \<and> (\<forall>p. cells g p = (if interior (arg_lines e) p
                 then cell_of_draw (rng e 424243 (nat ((fst p - 1) * XSIZE + snd p - 1))) else 0))
           \<and> final_grid e = Option.bind
                (spec_steps (schedules e) (arg_lines e) 0 (nat (arg_iterations e))
                   (uploaded e g, \<lparr>nrows = arg_lines e + 2, cells = fresh_to e\<rparr>))
                (\<lambda>sd. cudaMemcpy g (fst sd) ((arg_lines e + 2) * (XSIZE + 2)))"
proof -
  let ?n = "arg_lines e + 2"
  let ?d = "main_device e"
  note ok = assms(1) [unfolded ok_env_def]
  obtain g where g: "initConfig (rng e) (Ptr (calloc ?n)) (arg_lines e) = Some (Ptr g)"
    "nrows g = ?n"
    "\<forall>p. cells g p = (if interior (arg_lines e) p
                 then cell_of_draw (rng e 424243 (nat ((fst p - 1) * XSIZE + snd p - 1))) else 0)"
    using initConfig_Ptr [OF assms(2), of "rng e"] by blast
  have d: "pFrom ?d = Suc 0" "pTo ?d = 2"
    "mem ?d (Suc 0) = \<lparr>nrows = ?n, cells = fresh_from e\<rparr>"
    "mem ?d 2 = \<lparr>nrows = ?n, cells = fresh_to e\<rparr>"
    using ok by (simp_all add: main_device_ok)
  have r: "roles ?d = (\<lparr>nrows = ?n, cells = fresh_from e\<rparr>, \<lparr>nrows = ?n, cells = fresh_to e\<rparr>)"
    by (simp add: roles_def d)
  have "cudaMemcpy \<lparr>nrows = ?n, cells = fresh_from e\<rparr> g (?n * (XSIZE + 2))
      = Some (\<lparr>nrows = ?n, cells = fresh_from e\<rparr>\<lparr>cells := (\<lambda>p.
           if in_buffer \<lparr>nrows = ?n, cells = fresh_from e\<rparr> p then cells g p
           else cells \<lparr>nrows = ?n, cells = fresh_from e\<rparr> p)\<rparr>)"
    by (rule cudaMemcpy_all) (use g(2) assms(2) in simp_all)
  also have "\<dots> = Some (uploaded e g)"
    by (simp add: uploaded_def in_grid_in_buffer [of _ "arg_lines e"] cong: if_cong)
  finally have up: "cudaMemcpy \<lparr>nrows = ?n, cells = fresh_from e\<rparr> g (?n * (XSIZE + 2))
      = Some (uploaded e g)" .
  have "pFrom ?d \<noteq> pTo ?d" by (simp add: d)
  then have sim: "simulation e ?d g = Option.bind
      (spec_steps (schedules e) (arg_lines e) 0 (nat (arg_iterations e))
         (uploaded e g, \<lparr>nrows = ?n, cells = fresh_to e\<rparr>))
      (\<lambda>sd. cudaMemcpy g (fst sd) (?n * (XSIZE + 2)))"
    using simulation_as_steps [of ?d _ _ _ e g] by (simp add: r up)
  have "final_grid e = simulation e ?d g"
    using ok g(1)
    by (simp add: final_grid_def main_simulation_def main_from_def main_to_def d Let_def
        split: option.splits)
  with g sim show ?thesis by metis
qed

lemma download_all:
  assumes "nrows g = lines + 2" "nrows s = lines + 2" "0 \<le> lines"
  shows "cudaMemcpy g s ((lines + 2) * (XSIZE + 2)) = Some (downloaded lines g s)"
proof -
  have "cudaMemcpy g s ((lines + 2) * (XSIZE + 2))
      = Some (g\<lparr>cells := (\<lambda>p. if in_buffer g p then cells s p else cells g p)\<rparr>)"
    by (rule cudaMemcpy_all) (use assms in simp_all)
  then show ?thesis
    by (simp add: downloaded_def in_grid_in_buffer [OF assms(1)])
qed

lemma two_runs:
  assumes "ok_env e1" "ok_env e2"
    and "arg_lines e1 = launch_height" "arg_lines e2 = launch_height"
    and "arg_iterations e1 = arg_iterations e2" "rng e1 = rng e2"
  shows "\<exists>g1 g2. final_grid e1 = Some g1 \<and> final_grid e2 = Some g2
           \<and> same_on (interior launch_height) g1 g2
           \<and> (arg_iterations e1 \<noteq> 1 \<longrightarrow> g1 = g2)"
proof -
  let ?L = launch_height
  let ?N = "nat (arg_iterations e1)"
  have L: "0 \<le> ?L" using launch_height_pos by simp
  obtain g where g: "initConfig (rng e1) (Ptr (calloc (?L + 2))) ?L = Some (Ptr g)"
      "nrows g = ?L + 2"
      "\<forall>p. cells g p = (if interior ?L p
                 then cell_of_draw (rng e1 424243 (nat ((fst p - 1) * XSIZE + snd p - 1))) else 0)"
      "final_grid e1 = Option.bind
                (spec_steps (schedules e1) ?L 0 ?N (uploaded e1 g, \<lparr>nrows = ?L + 2, cells = fresh_to e1\<rparr>))
                (\<lambda>sd. cudaMemcpy g (fst sd) ((?L + 2) * (XSIZE + 2)))"
    using final_grid_steps [OF assms(1)] L unfolding assms(3) by blast
  obtain g' where g': "initConfig (rng e2) (Ptr (calloc (?L + 2))) ?L = Some (Ptr g')"
      "final_grid e2 = Option.bind
                (spec_steps (schedules e2) ?L 0 ?N (uploaded e2 g', \<lparr>nrows = ?L + 2, cells = fresh_to e2\<rparr>))
                (\<lambda>sd. cudaMemcpy g' (fst sd) ((?L + 2) * (XSIZE + 2)))"
    using final_grid_steps [OF assms(2)] L unfolding assms(4) assms(5) [symmetric] by blast
  have same: "g' = g" using g(1) g'(1) assms(6) by simp
  have gc: "cells g p = 0 \<or> cells g p = 1" for p
    using g(3) [rule_format, of p] by (simp add: cell_of_draw_def)
  have rel: "related 0 (uploaded e1 g, \<lparr>nrows = ?L + 2, cells = fresh_to e1\<rparr>)
      (uploaded e2 g, \<lparr>nrows = ?L + 2, cells = fresh_to e2\<rparr>)"
    unfolding related_def fst_conv snd_conv
    using gc by (simp add: uploaded_def assms(3,4) same_on_def binary_on_def interior_in_grid)
  obtain x y where xy: "spec_steps (schedules e1) ?L 0 ?N (uploaded e1 g, \<lparr>nrows = ?L + 2, cells = fresh_to e1\<rparr>) = Some x"
      "spec_steps (schedules e2) ?L 0 ?N (uploaded e2 g, \<lparr>nrows = ?L + 2, cells = fresh_to e2\<rparr>) = Some y"
      "related (0 + ?N) x y"
    using spec_steps_related [OF _ _ rel, of "schedules e1" "schedules e2" ?N] assms(1,2)
    unfolding ok_env_def by blast
  note r = xy(3) [unfolded related_def]
  have f1: "final_grid e1 = Some (downloaded ?L g (fst x))"
    unfolding g(4) xy(1) using download_all [OF g(2) _ L, of "fst x"] r by simp
  have f2: "final_grid e2 = Some (downloaded ?L g (fst y))"
    unfolding g'(2) same xy(2) using download_all [OF g(2) _ L, of "fst y"] r by simp
  have si: "cells (fst x) p = cells (fst y) p" if "interior ?L p" for p
    using r that unfolding same_on_def by blast
  have i: "same_on (interior ?L) (downloaded ?L g (fst x)) (downloaded ?L g (fst y))"
    unfolding same_on_def using si by (simp add: downloaded_def interior_in_grid)
  have e: "downloaded ?L g (fst x) = downloaded ?L g (fst y)" if "arg_iterations e1 \<noteq> 1"
  proof -
    have "0 + ?N \<noteq> 1" using that by auto
    then have "same_on (in_grid ?L) (fst x) (fst y)" using r by blast
    then have "cells (fst x) p = cells (fst y) p" if "in_grid ?L p" for p
      using that unfolding same_on_def by blast
    then have "(\<lambda>p. if in_grid ?L p then cells (fst x) p else cells g p)
        = (\<lambda>p. if in_grid ?L p then cells (fst y) p else cells g p)"
      by auto
    then show ?thesis by (simp add: downloaded_def)
  qed
  show ?thesis using f1 f2 i e by blast
qed

lemma one_iteration:
  assumes "ok_env e" "arg_lines e = launch_height" "arg_iterations e = 1"
  shows "\<exists>g. final_grid e = Some g \<and> nrows g = launch_height + 2
           \<and> cells g (0, 0) = fresh_to e (0, 0)"
proof -
  let ?L = launch_height
  have L: "0 \<le> ?L" using launch_height_pos by simp
  obtain g where g: "nrows g = ?L + 2"
      "\<forall>p. cells g p = (if interior ?L p
                 then cell_of_draw (rng e 424243 (nat ((fst p - 1) * XSIZE + snd p - 1))) else 0)"
      "final_grid e = Option.bind
                (spec_steps (schedules e) ?L 0 (nat 1) (uploaded e g, \<lparr>nrows = ?L + 2, cells = fresh_to e\<rparr>))
                (\<lambda>sd. cudaMemcpy g (fst sd) ((?L + 2) * (XSIZE + 2)))"
    using final_grid_steps [OF assms(1)] L unfolding assms(2,3) by blast
  have gc: "cells g p = 0 \<or> cells g p = 1" for p
    using g(2) [rule_format, of p] by (simp add: cell_of_draw_def)
  let ?x = "(uploaded e g, \<lparr>nrows = ?L + 2, cells = fresh_to e\<rparr>)"
  have rel: "related 0 ?x ?x"
    unfolding related_def fst_conv snd_conv
    using gc by (simp add: uploaded_def assms(2) same_on_def binary_on_def interior_in_grid)
  have v: "set (fst (schedules e 0)) = set (grid_threads numBlocks threadsPerBlock)"
    "set (snd (schedules e 0)) = set (grid_threads numBlocks threadsPerBlock)"
    using assms(1) unfolding ok_env_def valid_schedules_def schedule_of_def by blast+
  obtain x' y' where s: "spec_step (schedules e 0) ?L ?x = Some x'" "related (Suc 0) x' y'"
      "\<forall>p. \<not> interior ?L p \<longrightarrow> cells (fst x') p = cells (snd ?x) p"
    using spec_step_related [OF v v rel] by blast
  have n: "nrows (fst x') = ?L + 2" using s(2) unfolding related_def by blast
  have "final_grid e = Some (downloaded ?L g (fst x'))"
    unfolding g(3) using s(1) download_all [OF g(1) n L] by simp
  moreover have "cells (downloaded ?L g (fst x')) (0, 0) = fresh_to e (0, 0)"
    using s(3) by (simp add: downloaded_def in_grid_def interior_def XSIZE_def L)
  moreover have "nrows (downloaded ?L g (fst x')) = ?L + 2"
    by (simp add: downloaded_def g(1))
  ultimately show ?thesis by blast
qed

lemma valid_schedules_grid:
  "valid_schedules (\<lambda>i. (grid_threads numBlocks threadsPerBlock, grid_threads numBlocks threadsPerBlock))"
  by (simp add: valid_schedules_def schedule_of_grid)

lemma ok_plain_env: "ok_env (plain_env lines n)"
  by (simp add: ok_env_def plain_env_def valid_schedules_grid)

lemma ok_env_fresh_to: "ok_env (e\<lparr>fresh_to := f\<rparr>) = ok_env e"
  by (simp add: ok_env_def)

lemma raw_bytes_first:
  assumes "0 < n" "cells a (0, 0) \<noteq> cells b (0, 0)"
  shows "raw_bytes a n \<noteq> raw_bytes b n"
proof
  assume "raw_bytes a n = raw_bytes b n"
  then have "hd (raw_bytes a n) = hd (raw_bytes b n)" by simp
  then show False
    using assms unfolding raw_bytes_def by (simp add: hd_map)
qed

lemma launch_simulate_binary:
  assumes "launch_simulate sched from to lines = Some to'" "binary to"
  shows "binary to'"
proof (rule launch_preserves [OF assms(1) [unfolded launch_simulate_def], where Inv = binary])
  show "binary to" by (rule assms(2))
  fix t s s1
  assume a: "binary s" "simulate threadsPerBlock (fst t) (snd t) from s lines = Some s1"
  let ?p = "(thread_y t + 1, thread_x t + 1)"
  from a(2) have r: "0 \<le> nsum from ?p" "nsum from ?p < 10"
    and s1: "s1 = s\<lparr>cells := (cells s)(?p := anneal ! nat (nsum from ?p))\<rparr>"
    unfolding simulate_thread_Some Let_def by blast+
  have v: "anneal ! nat (nsum from ?p) = 0 \<or> anneal ! nat (nsum from ?p) = 1"
    using r by (intro anneal_binary) auto
  show "binary s1"
    unfolding binary_def
  proof (intro allI impI)
    fix p assume "in_buffer s1 p"
    then have "in_buffer s p" by (simp add: s1 in_buffer_def)
    then have "cells s p = 0 \<or> cells s p = 1" using a(1) unfolding binary_def by blast
    with v show "cells s1 p = 0 \<or> cells s1 p = 1"
      by (cases "p = ?p") (simp_all add: s1)
  qed
qed

lemma step_binary:
  assumes "step sc lines d = Some d'" "binary (fst (roles d))" "binary (snd (roles d))"
  shows "binary (fst (roles d')) \<and> binary (snd (roles d'))"
proof -
  obtain b t where b: "launch_boundary (fst sc) (mem d (pFrom d)) lines = Some b"
    and t: "launch_simulate (snd sc) (((mem d)(pFrom d := b)) (pFrom d)) (((mem d)(pFrom d := b)) (pTo d)) lines = Some t"
    and d': "d' = \<lparr>mem = ((mem d)(pFrom d := b))(pTo d := t), pFrom = pTo d, pTo = pFrom d, pTemp = pFrom d\<rparr>"
    using assms(1) unfolding step_def Let_def by (auto split: Option.bind_splits)
  have bb: "binary b" using launch_boundary_binary [OF b] assms(2) by (simp add: roles_def)
  have "binary (((mem d)(pFrom d := b)) (pTo d))"
    using bb assms(3) by (simp add: roles_def)
  then have bt: "binary t" by (rule launch_simulate_binary [OF t])
  show ?thesis using bb bt by (simp add: roles_def d')
qed

lemma main_loop_binary:
  "main_loop sch lines iterations i d = Some d' \<Longrightarrow> binary (fst (roles d)) \<Longrightarrow> binary (snd (roles d))
     \<Longrightarrow> binary (fst (roles d')) \<and> binary (snd (roles d'))"
proof (induction sch lines iterations i d rule: main_loop.induct)
  case (1 sch lines iterations i d)
  show ?case
  proof (cases "i < iterations")
    case False
    then have "d' = d" using "1.prems"(1) by (subst (asm) main_loop.simps) simp
    then show ?thesis using "1.prems" by simp
  next
    case True
    then obtain d1 where d1: "step (sch (nat i)) lines d = Some d1"
        "main_loop sch lines iterations (i + 1) d1 = Some d'"
      using "1.prems"(1) by (subst (asm) main_loop.simps) (auto split: option.splits)
    have "binary (fst (roles d1)) \<and> binary (snd (roles d1))"
      using step_binary [OF d1(1)] "1.prems"(2,3) by simp
    then show ?thesis using "1.IH" [OF True d1(1) d1(2)] by simp
  qed
qed

lemma cudaMemcpy_binary:
  assumes "cudaMemcpy dst src n = Some r" "binary dst" "binary src"
  shows "binary r"
proof -
  have n: "n \<le> nrows src * (XSIZE + 2)"
    and r: "r = dst\<lparr>cells := (\<lambda>p. if 0 \<le> fst p \<and> 0 \<le> snd p \<and> snd p < XSIZE + 2 \<and> offset p < n
                                     then cells src p else cells dst p)\<rparr>"
    using assms(1) unfolding cudaMemcpy_def by (auto split: if_splits)
  show ?thesis
    unfolding binary_def
  proof (intro allI impI)
    fix p assume p: "in_buffer r p"
    show "cells r p = 0 \<or> cells r p = 1"
    proof (cases "0 \<le> fst p \<and> 0 \<le> snd p \<and> snd p < XSIZE + 2 \<and> offset p < n")
      case True
      then have "offset p < nrows src * (XSIZE + 2)" using n by simp
      then have "fst p < nrows src" using True offset_less [of p "nrows src"] by simp
      then have "in_buffer src p" using True by (simp add: in_buffer_def)
      then have "cells src p = 0 \<or> cells src p = 1" using assms(3) unfolding binary_def by blast
      moreover have "cells r p = cells src p" unfolding r using True by simp
      ultimately show ?thesis by simp
    next
      case False
      have "in_buffer dst p" using p by (simp add: r in_buffer_def)
      then have "cells dst p = 0 \<or> cells dst p = 1" using assms(2) unfolding binary_def by blast
      moreover have "cells r p = cells dst p" unfolding r using False by auto
      ultimately show ?thesis by simp
    qed
  qed
qed

lemma initConfig_binary:
  "\<exists>g. initConfig r (Ptr (calloc (lines + 2))) lines = Some (Ptr g) \<and> nrows g = lines + 2 \<and> binary g"
proof (cases "0 \<le> lines")
  case True
  obtain g where g: "initConfig r (Ptr (calloc (lines + 2))) lines = Some (Ptr g)" "nrows g = lines + 2"
    "\<forall>p. cells g p = (if interior lines p
                           then cell_of_draw (r 424243 (nat ((fst p - 1) * XSIZE + snd p - 1)))
                           else 0)"
    using initConfig_Ptr [OF True] by blast
  have "cells g p = 0 \<or> cells g p = 1" for p
    using g(3) [rule_format, of p] by (simp add: cell_of_draw_def)
  then have "binary g" by (simp add: binary_def)
  with g(1,2) show ?thesis by blast
next
  case False
  then have "initConfig r (Ptr (calloc (lines + 2))) lines = Some (Ptr (calloc (lines + 2)))"
    unfolding initConfig_def by (subst initConfig_y.simps) simp
  moreover have "binary (calloc (lines + 2))" by (simp add: binary_def calloc_def)
  ultimately show ?thesis by (simp add: calloc_def)
qed

lemma final_grid_binary:
  assumes "final_grid e = Some g" "\<forall>p. fresh_to e p = 0 \<or> fresh_to e p = 1"
  shows "binary g"
proof -
  let ?n = "arg_lines e + 2"
  let ?d = "main_device e"
  obtain g0 where g0: "initConfig (rng e) (Ptr (calloc ?n)) (arg_lines e) = Some (Ptr g0)"
      "nrows g0 = ?n" "binary g0"
    using initConfig_binary by blast
  have ms: "main_simulation e = Inr g"
    using assms(1) unfolding final_grid_def by (cases "main_simulation e") simp_all
  have c: "calloc_from_ok e"
  proof (rule ccontr)
    assume "\<not> calloc_from_ok e"
    then have "main_from e = NULL" by (simp add: main_from_def)
    then show False
      using ms unfolding main_simulation_def initConfig_def
      by (subst (asm) initConfig_y.simps)
        (auto simp: initConfig_x.simps [of _ _ 1 _ NULL] wrp_def XSIZE_def Let_def
          split: if_splits option.splits hostptr.splits)
  qed
  then have mf: "main_from e = Ptr (calloc ?n)" by (simp add: main_from_def)
  from ms have ok: "pFrom ?d \<noteq> 0" "pTo ?d \<noteq> 0" and sim: "simulation e ?d g0 = Some g"
    unfolding main_simulation_def mf g0(1)
    by (auto simp: Let_def split: if_splits option.splits)
  have cm: "cudaMalloc_from_ok e" "cudaMalloc_to_ok e"
    using ok by (auto simp: main_device_def cudaMalloc_def split: if_splits)
  note d = main_device_ok [OF cm]
  obtain up d' where up: "cudaMemcpy (mem ?d (pFrom ?d)) g0 (?n * (XSIZE + 2)) = Some up"
    and lp: "main_loop (schedules e) (arg_lines e) (arg_iterations e) 0 (?d\<lparr>mem := (mem ?d)(pFrom ?d := up)\<rparr>) = Some d'"
    and dn: "cudaMemcpy g0 (mem d' (pFrom d')) (?n * (XSIZE + 2)) = Some g"
    using sim unfolding simulation_def Let_def by (auto split: Option.bind_splits)
  have n0: "0 \<le> ?n"
    using up unfolding cudaMemcpy_def by (auto simp: XSIZE_def split: if_splits)
  have "up = (mem ?d (pFrom ?d))\<lparr>cells := (\<lambda>p. if in_buffer (mem ?d (pFrom ?d)) p then cells g0 p
                 else cells (mem ?d (pFrom ?d)) p)\<rparr>"
    using up cudaMemcpy_all [of "mem ?d (pFrom ?d)" ?n g0] g0(2) n0 by (simp add: d)
  then have bu: "binary up"
    using g0(2,3) unfolding binary_def by (simp add: d in_buffer_def)
  have bt: "binary (mem ?d (pTo ?d))"
    using assms(2) by (simp add: d binary_def)
  have "binary (fst (roles d'))"
    using main_loop_binary [OF lp] bu bt by (simp add: roles_def d)
  then show ?thesis
    using cudaMemcpy_binary [OF dn g0(3)] by (simp add: roles_def)
qed

lemma run_completes_at_launch_height:
  assumes "ok_env e" and "arg_lines e = launch_height"
  shows "\<exists>g. final_grid e = Some g"
  using two_runs [OF assms(1) assms(1) assms(2) assms(2)] by auto

lemma interior_bytes_cong:
  assumes "same_on (interior lines) a b"
  shows "interior_bytes a lines = interior_bytes b lines"
proof -
  have "cells a (r, c) = cells b (r, c)" if "r \<in> set [1..lines]" "c \<in> set [1..XSIZE]" for r c
    using assms that unfolding same_on_def interior_def by simp
  then show ?thesis unfolding interior_bytes_def
    by (intro arg_cong [where f = concat] map_cong refl) simp
qed

lemma main_of_final_grid:
  assumes "final_grid e = Some g" "0 \<le> arg_lines e" "nrows g = arg_lines e + 2"
  shows "main e = Exit 0 (report (concat (map (\<lambda>i. hex_byte (md5 e (raw_bytes g (size_t (arg_lines e))) i))
                                         [0..<MD5_DIGEST_LENGTH])) (elapsed e))"
proof -
  have "main_simulation e = Inr g"
    using assms(1) by (simp add: final_grid_def split: sum.splits)
  then show ?thesis
    by (simp add: main_def getMD5DigestStr_Some [OF assms(2,3)])
qed

lemma one_iteration_main:
  assumes "ok_env e" "arg_lines e = launch_height" "arg_iterations e = 1"
  shows "\<exists>g. final_grid e = Some g \<and> cells g (0, 0) = fresh_to e (0, 0)
          \<and> getMD5DigestStr (md5 e) g (size_t launch_height)
              = Some (concat (map (\<lambda>i. hex_byte (md5 e (raw_bytes g (size_t launch_height)) i))
                        [0..<MD5_DIGEST_LENGTH]))
          \<and> main e = Exit 0 (report (concat (map (\<lambda>i. hex_byte (md5 e (raw_bytes g (size_t launch_height)) i))
                        [0..<MD5_DIGEST_LENGTH])) (elapsed e))"
proof -
  have L: "0 \<le> launch_height" using launch_height_pos by simp
  obtain g where g: "final_grid e = Some g" "nrows g = launch_height + 2"
      "cells g (0, 0) = fresh_to e (0, 0)"
    using one_iteration [OF assms] by blast
  have "main e = Exit 0 (report (concat (map (\<lambda>i. hex_byte (md5 e (raw_bytes g (size_t launch_height)) i))
                        [0..<MD5_DIGEST_LENGTH])) (elapsed e))"
    using main_of_final_grid [OF g(1)] L g(2) by (simp add: assms(2))
  then show ?thesis using g(1,3) getMD5DigestStr_Some [OF L g(2)] by blast
qed

section \<open>The halo of \<open>boundary\<close> and the torus, for \<open>lines = 131072\<close>\<close>

text \<open>
  When \<open>lines\<close> is the number of threads along \<open>y\<close>, a launch of \<open>boundary\<close> completes
  and fills the whole halo from the opposite edges, and the neighbour sum of every interior
  cell, read through the halo, is the sum obtained by indexing the interior modulo
  \<open>lines\<close> and \<open>XSIZE\<close>.
\<close>

lemma wrap_index:
  fixes n r :: int
  assumes "1 \<le> n" "0 \<le> r" "r \<le> n + 1"
  shows "(r - 1) mod n + 1 = (if r = 0 then n else if r = n + 1 then 1 else r)"
proof -
  consider "r = 0" | "r = n + 1" | "1 \<le> r" "r \<le> n" using assms by linarith
  then show ?thesis
  proof cases
    case 1
    have "(- 1) mod n = n - 1" using assms(1) by (simp add: zmod_minus1)
    then show ?thesis using 1 by simp
  next
    case 2
    then show ?thesis using assms(1) by simp
  next
    case 3
    then have "(r - 1) mod n = r - 1" by simp
    then show ?thesis using 3 assms(1) by simp
  qed
qed

lemma wrap_mod:
  assumes "1 \<le> lines" "in_grid lines p"
  shows "wrap lines p = ((fst p - 1) mod lines + 1, (snd p - 1) mod XSIZE + 1)"
  using assms XSIZE_pos
  by (simp add: wrap_def in_grid_def wrap_index)

lemma wrap_fixes_interior: "interior lines p \<Longrightarrow> wrap lines p = p"
  by (cases p) (auto simp: wrap_def interior_def)

lemma synchronised_is_torus:
  assumes "1 \<le> lines" "in_grid lines p"
    and "\<And>q. cells b' q = (if halo lines q then cells b (wrap lines q) else cells b q)"
  shows "cells b' p = torus_cell b lines p"
proof (cases "halo lines p")
  case True
  then show ?thesis by (simp add: assms(3) torus_cell_def wrap_mod [OF assms(1,2), symmetric])
next
  case False
  then have "interior lines p" using assms(2) by (simp add: halo_def)
  then have "wrap lines p = p" by (rule wrap_fixes_interior)
  then show ?thesis
    using False by (simp add: assms(3) torus_cell_def wrap_mod [OF assms(1,2), symmetric])
qed

lemma launch_boundary_wraps:
  assumes "schedule_of numBlocks threadsPerBlock sched" and "nrows buf = launch_height + 2"
  shows "\<exists>buf'. launch_boundary sched buf launch_height = Some buf'
           \<and> (\<forall>p. cells buf' p = (if halo launch_height p then cells buf (wrap launch_height p)
                                    else cells buf p))
           \<and> (\<forall>p. interior launch_height p \<longrightarrow> nsum buf' p = torus_sum buf launch_height p)"
proof -
  let ?L = launch_height
  have s: "set sched = set (grid_threads numBlocks threadsPerBlock)"
    using assms(1) by (simp add: schedule_of_def)
  obtain buf' where b: "launch_boundary sched buf ?L = Some buf'"
      "\<forall>p. cells buf' p = (if halo ?L p then cells buf (wrap ?L p) else cells buf p)"
    using launch_boundary_torus [OF s order_refl assms(2)] unfolding boundary_written_eq by blast
  have c: "cells buf' q = (if halo ?L q then cells buf (wrap ?L q) else cells buf q)" for q
    using b(2) by blast
  have L1: "1 \<le> ?L" using launch_height_pos by simp
  have t: "cells buf' q = torus_cell buf ?L q" if "in_grid ?L q" for q
    using synchronised_is_torus [OF L1 that, of buf' buf] c by simp
  have "nsum buf' p = torus_sum buf ?L p" if "interior ?L p" for p
  proof -
    obtain y x where p: "p = (y, x)" by (cases p)
    have g: "in_grid ?L (y + i, x + j)" if "i \<in> {-1, 0, 1}" "j \<in> {-1, 0, 1}" for i j
      using \<open>interior ?L p\<close> that unfolding p interior_def in_grid_def by auto
    show ?thesis
      unfolding p nsum_def torus_sum_def Let_def fst_conv snd_conv
      using t [OF g [of "-1" "-1"]] t [OF g [of 0 "-1"]] t [OF g [of 1 "-1"]]
        t [OF g [of "-1" 0]] t [OF g [of 0 0]] t [OF g [of 1 0]]
        t [OF g [of "-1" 1]] t [OF g [of 0 1]] t [OF g [of 1 1]]
      by simp
  qed
  with b show ?thesis by blast
qed

section \<open>The rule of one thread\<close>

text \<open>
  The thread of \<open>simulate\<close> whose coordinates are \<open>y = row\<close> and \<open>x = col\<close>, for
  an interior cell \<open>(row, col)\<close> and a source of zeros and ones, writes the entry of
  \<open>anneal\<close> at the sum of the nine source cells to the cell \<open>(row, col)\<close> of the
  destination and changes nothing else.
\<close>

lemma simulate_thread_rule:
  assumes "interior lines (row, col)"
    and "int (snd blockIdx * snd blockDim + snd threadIdx) + 1 = row"
    and "int (fst blockIdx * fst blockDim + fst threadIdx) + 1 = col"
    and "nrows from = lines + 2" and "nrows to = lines + 2"
    and "binary from"
  shows "simulate blockDim blockIdx threadIdx from to lines
           = Some (to\<lparr>cells := (cells to)((row, col) := anneal ! nat (nsum from (row, col)))\<rparr>)
         \<and> 0 \<le> nsum from (row, col) \<and> nsum from (row, col) \<le> 9
         \<and> map (\<lambda>s. anneal ! s) [4, 6, 7, 8, 9] = [1, 1, 1, 1, 1]
         \<and> map (\<lambda>s. anneal ! s) [0, 1, 2, 3, 5] = [0, 0, 0, 0, 0]
         \<and> length anneal = 10"
proof -
  have r: "readable from (row, col)" "in_buffer to (row, col)"
    using interior_readable assms(1,4,5) by blast+
  have s: "0 \<le> nsum from (row, col) \<and> nsum from (row, col) \<le> 9"
    using nsum_range [OF r(1)] assms(6) by (simp add: binary_def)
  have "simulate blockDim blockIdx threadIdx from to lines
           = Some (to\<lparr>cells := (cells to)((row, col) := anneal ! nat (nsum from (row, col)))\<rparr>)"
    unfolding simulate_Some Let_def assms(2,3) using r s by simp
  moreover have "map (\<lambda>s. anneal ! s) [4, 6, 7, 8, 9] = [1, 1, 1, 1, 1]"
    "map (\<lambda>s. anneal ! s) [0, 1, 2, 3, 5] = [0, 0, 0, 0, 0]" "length anneal = 10"
    by (simp_all add: anneal_def)
  ultimately show ?thesis using s by blast
qed

section \<open>Claims about runs without iterations and about failures\<close>



text \<open>
  C7, at the failing input.  In a run with \<open>lines \<ge> 1\<close> and no iteration the program
  writes one line, and the digest in it is taken of the first \<open>lines\<close> bytes of the
  buffer \<open>from\<close>: \<open>main\<close> passes \<open>lines\<close>, a number of lines, as the number of
  bytes.  These bytes begin with the halo cell \<open>(0, 0)\<close> and are not the bytes of the
  interior, of which there are \<open>lines * XSIZE\<close>.
\<close>

theorem digest_input_is_not_interior:
  assumes "argc e = 3" "1 \<le> arg_lines e" "arg_lines e < 2 ^ 31" "arg_iterations e = 0"
    "calloc_from_ok e" "calloc_to_ok e" "cudaMalloc_from_ok e" "cudaMalloc_to_ok e"
  shows "\<exists>g. final_grid e = Some g
           \<and> main e = Exit 0 (report (concat (map (\<lambda>i. hex_byte (md5 e (raw_bytes g (nat (arg_lines e))) i))
                                         [0..<MD5_DIGEST_LENGTH])) (elapsed e))
           \<and> raw_bytes g (nat (arg_lines e)) \<noteq> interior_bytes g (arg_lines e)
           \<and> hd (raw_bytes g (nat (arg_lines e))) = cells g (0, 0)
           \<and> halo (arg_lines e) (0, 0)"
proof -
  obtain g where g: "final_grid e = Some g"
      "main e = Exit 0 (report (concat (map (\<lambda>i. hex_byte (md5 e (raw_bytes g (size_t (arg_lines e))) i))
                                         [0..<MD5_DIGEST_LENGTH])) (elapsed e))"
    using main_zero [OF assms(1,2,4-8)] by blast
  have st: "size_t (arg_lines e) = nat (arg_lines e)"
    using assms(2,3) by (simp add: size_t_small)
  have "length (raw_bytes g (nat (arg_lines e))) = nat (arg_lines e)"
    by (simp add: raw_bytes_def)
  moreover have "length (interior_bytes g (arg_lines e)) = nat (arg_lines e) * 1024"
    by (simp add: length_interior_bytes XSIZE_def)
  moreover have "nat (arg_lines e) \<noteq> nat (arg_lines e) * 1024"
    using assms(2) by simp
  ultimately have ne: "raw_bytes g (nat (arg_lines e)) \<noteq> interior_bytes g (arg_lines e)"
    by metis
  have "0 < nat (arg_lines e)" using assms(2) by simp
  then have "hd (raw_bytes g (nat (arg_lines e))) = cells g (0, 0)"
    unfolding raw_bytes_def by (simp add: hd_map)
  moreover have "halo (arg_lines e) (0, 0)"
    using assms(2) by (simp add: halo_def in_grid_def interior_def XSIZE_def)
  ultimately show ?thesis using g ne unfolding st by blast
qed

theorem digest_input_is_not_interior_witness:
  "\<exists>g. final_grid (plain_env 1 0) = Some g
     \<and> main (plain_env 1 0)
         = Exit 0 (report (concat (map (\<lambda>i. hex_byte (md5 (plain_env 1 0)
               (raw_bytes g (nat (arg_lines (plain_env 1 0)))) i)) [0..<MD5_DIGEST_LENGTH]))
             (elapsed (plain_env 1 0)))
     \<and> raw_bytes g (nat (arg_lines (plain_env 1 0))) \<noteq> interior_bytes g (arg_lines (plain_env 1 0))
     \<and> hd (raw_bytes g (nat (arg_lines (plain_env 1 0)))) = cells g (0, 0)
     \<and> halo (arg_lines (plain_env 1 0)) (0, 0)"
  by (rule digest_input_is_not_interior) (simp_all add: plain_env_def)

text \<open>
  C9, at the failing input.  When \<^verbatim>\<open>calloc\<close> returns \<^verbatim>\<open>NULL\<close> for \<open>from\<close> and
  \<open>lines \<ge> 1\<close>, \<open>initConfig\<close> writes through the null pointer before \<open>main\<close>
  tests it: the run is undefined, and no failure is reported.
\<close>

theorem host_from_failure_is_undefined:
  assumes "argc e = 3" "\<not> calloc_from_ok e" "1 \<le> arg_lines e"
  shows "main e = Undefined"
  using assms by (simp add: main_def main_simulation_def main_from_def initConfig_NULL)

theorem host_from_failure_is_undefined_witness:
  "main ((plain_env 1 0)\<lparr>calloc_from_ok := False\<rparr>) = Undefined"
  by (rule host_from_failure_is_undefined) (simp_all add: plain_env_def)

section \<open>Claims about the launches of \<open>main\<close>\<close>

text \<open>
  The launches of \<open>main\<close> have 1024 threads along \<open>x\<close> and 131072 along \<open>y\<close>,
  whatever \<open>lines\<close> is, and neither kernel compares \<open>y\<close> with \<open>lines\<close> before it
  indexes a buffer.  The comment in \<open>boundary\<close> says that there are \<open>lines\<close> threads
  along \<open>y\<close>; that holds for \<open>lines = 131072\<close> only.
\<close>

text \<open>
  C1, at the failing input.  For \<open>lines \<ge> 131072\<close> a launch of \<open>simulate\<close> on a
  source of zeros and ones completes.  The sum of a source cell of the interior and its
  eight neighbours lies between 0 and 9, and in the interior cells of the rows
  \<open>1..131072\<close> the destination then holds the entry of \<open>anneal\<close> at that sum.  But no
  thread has \<open>y > 131072\<close>: an interior cell of a row beyond 131072 holds what the
  destination held before the launch, whatever the table gives for it.  The table has
  ten entries and maps the sums 4, 6, 7, 8, 9 to 1 and the sums 0, 1, 2, 3, 5 to 0.
\<close>

theorem launch_applies_rule_to_launched_rows_only:
  assumes "schedule_of numBlocks threadsPerBlock sched"
    and "launch_height \<le> lines" and "nrows from = lines + 2" and "nrows to = lines + 2"
    and "binary from"
  shows "\<exists>to'. launch_simulate sched from to lines = Some to'
           \<and> (\<forall>row col. interior lines (row, col) \<longrightarrow>
                0 \<le> nsum from (row, col) \<and> nsum from (row, col) \<le> 9
                \<and> cells to' (row, col)
                    = (if row \<le> launch_height then anneal ! nat (nsum from (row, col))
                       else cells to (row, col)))
           \<and> map (\<lambda>s. anneal ! s) [4, 6, 7, 8, 9] = [1, 1, 1, 1, 1]
           \<and> map (\<lambda>s. anneal ! s) [0, 1, 2, 3, 5] = [0, 0, 0, 0, 0]
           \<and> length anneal = 10"
proof -
  have s: "set sched = set (grid_threads numBlocks threadsPerBlock)"
    using assms(1) by (simp add: schedule_of_def)
  have bin: "\<forall>q. in_grid launch_height q \<longrightarrow> cells from q = 0 \<or> cells from q = 1"
    using assms(2,3,5) unfolding binary_def in_buffer_def in_grid_def by auto
  obtain to' where t: "launch_simulate sched from to lines = Some to'"
    using launch_simulate_succeeds [OF s assms(2,3,4) bin] by auto
  have c: "cells to' p = (if interior launch_height p then anneal ! nat (nsum from p) else cells to p)" for p
    using launch_simulate_cells [OF t s] by blast
  have cell: "0 \<le> nsum from (row, col) \<and> nsum from (row, col) \<le> 9
        \<and> cells to' (row, col)
            = (if row \<le> launch_height then anneal ! nat (nsum from (row, col)) else cells to (row, col))"
    if i: "interior lines (row, col)" for row col
  proof -
    have "readable from (row, col)" using interior_readable [OF i assms(3)] by simp
    then have r: "0 \<le> nsum from (row, col) \<and> nsum from (row, col) \<le> 9"
      using nsum_range assms(5) unfolding binary_def by blast
    have "interior launch_height (row, col) = (row \<le> launch_height)"
      using i by (simp add: interior_def)
    then show ?thesis using r c [of "(row, col)"] by simp
  qed
  have tab: "map (\<lambda>s. anneal ! s) [4, 6, 7, 8, 9] = [1, 1, 1, 1, 1]
           \<and> map (\<lambda>s. anneal ! s) [0, 1, 2, 3, 5] = [0, 0, 0, 0, 0]
           \<and> length anneal = 10"
    by (simp add: anneal_def)
  show ?thesis
  proof (intro exI [of _ to'] conjI)
    show "launch_simulate sched from to lines = Some to'" by (rule t)
    show "\<forall>row col. interior lines (row, col) \<longrightarrow>
                0 \<le> nsum from (row, col) \<and> nsum from (row, col) \<le> 9
                \<and> cells to' (row, col)
                    = (if row \<le> launch_height then anneal ! nat (nsum from (row, col))
                       else cells to (row, col))"
      using cell by blast
  qed (use tab in simp_all)
qed

theorem launch_applies_rule_to_launched_rows_only_witness:
  "\<exists>to'. launch_simulate (grid_threads numBlocks threadsPerBlock)
            ((calloc 131075)\<lparr>cells := (\<lambda>p. 1)\<rparr>) (calloc 131075) 131073 = Some to'
      \<and> interior 131073 (1, 1) \<and> cells to' (1, 1) = 1
      \<and> interior 131073 (131073, 1) \<and> cells to' (131073, 1) = 0
      \<and> anneal ! nat (nsum ((calloc 131075)\<lparr>cells := (\<lambda>p. 1)\<rparr>) (131073, 1)) = 1"
proof -
  let ?from = "(calloc 131075)\<lparr>cells := (\<lambda>p. 1)\<rparr>"
  have n: "nsum ?from p = 9" for p by (simp add: nsum_def)
  have a: "anneal ! 9 = 1" by (simp add: anneal_def)
  have i: "interior 131073 (1, 1)" "interior 131073 (131073, 1)"
    by (simp_all add: interior_def XSIZE_def)
  obtain to' where t: "launch_simulate (grid_threads numBlocks threadsPerBlock) ?from (calloc 131075) 131073
        = Some to'"
    "\<forall>row col. interior 131073 (row, col) \<longrightarrow>
       cells to' (row, col) = (if row \<le> launch_height then anneal ! nat (nsum ?from (row, col))
                               else cells (calloc 131075) (row, col))"
    using launch_applies_rule_to_launched_rows_only [OF schedule_of_grid, of 131073 ?from "calloc 131075"]
    by (auto simp: calloc_def launch_height_eq binary_def)
  have "cells to' (1, 1) = 1"
    using t(2) [rule_format, OF i(1)] by (simp add: n a launch_height_eq)
  moreover have "cells to' (131073, 1) = 0"
    using t(2) [rule_format, OF i(2)] by (simp add: launch_height_eq calloc_def)
  ultimately show ?thesis using t(1) i by (simp add: n a)
qed

text \<open>
  C3, at the failing input.  For \<open>lines > 131072\<close> a launch of \<open>boundary\<close> completes,
  but no thread has \<open>y = lines - 1\<close>: the halo row \<open>lines + 1\<close> keeps in its columns
  \<open>1..XSIZE\<close> what it held before, whatever the interior row 1 holds.
\<close>

theorem bottom_halo_not_synchronised:
  assumes "schedule_of numBlocks threadsPerBlock sched"
    and "launch_height < lines" and "nrows buf = lines + 2" and "1 \<le> c" and "c \<le> XSIZE"
  shows "\<exists>buf'. launch_boundary sched buf lines = Some buf'
           \<and> cells buf' (lines + 1, c) = cells buf (lines + 1, c)
           \<and> cells buf' (1, c) = cells buf (1, c)"
proof -
  have s: "set sched = set (grid_threads numBlocks threadsPerBlock)"
    using assms(1) by (simp add: schedule_of_def)
  obtain buf' where b: "launch_boundary sched buf lines = Some buf'"
      "\<forall>p. cells buf' p = (if p \<in> boundary_written lines then cells buf (wrap lines p) else cells buf p)"
    using launch_boundary_torus [OF s _ assms(3)] assms(2) by auto
  have "cells buf' (lines + 1, c) = cells buf (lines + 1, c)"
    using b(2) bottom_row_not_written [OF assms(2,4,5)] by simp
  moreover have "interior lines (1, c)"
    using assms(2,4,5) launch_height_pos by (simp add: interior_def)
  then have "cells buf' (1, c) = cells buf (1, c)"
    using launch_boundary_frame [OF b(1)] by blast
  ultimately show ?thesis using b(1) by blast
qed

theorem bottom_halo_not_synchronised_witness:
  "\<exists>buf'. launch_boundary (grid_threads numBlocks threadsPerBlock)
             ((calloc 131075)\<lparr>cells := (\<lambda>p. if p = (1, 1) then 1 else 0)\<rparr>) 131073 = Some buf'
      \<and> cells buf' (131073 + 1, 1) = 0 \<and> cells buf' (1, 1) = 1"
  using bottom_halo_not_synchronised [OF schedule_of_grid, of 131073
      "(calloc 131075)\<lparr>cells := (\<lambda>p. if p = (1, 1) then 1 else 0)\<rparr>" 1]
  by (simp add: calloc_def launch_height_eq XSIZE_def)

text \<open>
  C4, at the failing input.  For \<open>lines > 131072\<close> a launch of \<open>simulate\<close> on a
  source of zeros and ones completes, but no thread has \<open>y = lines\<close>: the interior
  row \<open>lines\<close> of the destination is not written and keeps what it held before.
\<close>

theorem rows_beyond_launch_not_written:
  assumes "schedule_of numBlocks threadsPerBlock sched"
    and "launch_height < lines" and "nrows from = lines + 2" and "nrows to = lines + 2"
    and "binary from" and "1 \<le> c" and "c \<le> XSIZE"
  shows "interior lines (lines, c)
         \<and> (\<exists>to'. launch_simulate sched from to lines = Some to'
                \<and> cells to' (lines, c) = cells to (lines, c))"
proof -
  have s: "set sched = set (grid_threads numBlocks threadsPerBlock)"
    using assms(1) by (simp add: schedule_of_def)
  have bin: "\<forall>q. in_grid launch_height q \<longrightarrow> cells from q = 0 \<or> cells from q = 1"
    using assms(2,3,5) unfolding binary_def in_buffer_def in_grid_def by auto
  obtain to' where t: "launch_simulate sched from to lines = Some to'"
    using launch_simulate_succeeds [OF s _ assms(3,4) bin] assms(2) by auto
  have "\<not> interior launch_height (lines, c)" using assms(2) by (simp add: interior_def)
  then have "cells to' (lines, c) = cells to (lines, c)"
    using launch_simulate_cells [OF t s] by simp
  moreover have "interior lines (lines, c)"
    using assms(2,6,7) launch_height_pos by (simp add: interior_def)
  ultimately show ?thesis using t by blast
qed

theorem rows_beyond_launch_not_written_witness:
  "interior 131073 (131073, 1)
   \<and> (\<exists>to'. launch_simulate (grid_threads numBlocks threadsPerBlock) (calloc 131075)
               ((calloc 131075)\<lparr>cells := (\<lambda>p. 1)\<rparr>) 131073 = Some to'
          \<and> cells to' (131073, 1) = 1)
   \<and> anneal ! nat (nsum (calloc 131075) (131073, 1)) = 0"
proof -
  have "anneal ! nat (nsum (calloc 131075) (131073, 1)) = 0"
    by (simp add: nsum_def calloc_def anneal_def)
  then show ?thesis
    using rows_beyond_launch_not_written [OF schedule_of_grid, of 131073 "calloc 131075"
      "(calloc 131075)\<lparr>cells := (\<lambda>p. 1)\<rparr>" 1]
    by (simp add: calloc_def launch_height_eq XSIZE_def binary_def)
qed

text \<open>
  C5, at the failing input.  For \<open>lines < 131071\<close> the thread of \<open>boundary\<close> with
  \<open>x = 0\<close> and \<open>y = lines + 1\<close> assigns to \<^verbatim>\<open>buf[lines + 2][0]\<close>, a cell behind
  the last line of the buffer: the launch writes outside the halo, and outside the buffer.
\<close>

theorem boundary_out_of_bounds_small:
  assumes "schedule_of numBlocks threadsPerBlock sched"
    and "nrows buf = lines + 2" and "1 \<le> lines" and "lines + 1 < launch_height"
  shows "launch_boundary sched buf lines = None"
  using assms by (intro launch_boundary_out_of_bounds) (simp_all add: schedule_of_def)

theorem boundary_out_of_bounds_small_witness:
  "launch_boundary (grid_threads numBlocks threadsPerBlock) (calloc 3) 1 = None"
  by (rule boundary_out_of_bounds_small [OF schedule_of_grid])
    (simp_all add: calloc_def launch_height_eq)

section \<open>Claim about the iteration driver\<close>

text \<open>
  C2, at the failing input.  For \<open>1 \<le> lines < 131072\<close> and an iteration count
  \<open>N \<ge> 1\<close> no step of the loop of \<open>main\<close> completes: on every device state whose
  source buffer has \<open>lines + 2\<close> lines, the launch of \<open>boundary\<close> or, after it, the
  launch of \<open>simulate\<close> accesses a line behind the last line of the buffer.  The run is
  undefined, and there is no final grid.
\<close>

theorem loop_undefined_below_launch_height:
  assumes "ok_env e" and "1 \<le> arg_lines e" and "arg_lines e < launch_height"
    and "1 \<le> arg_iterations e"
  shows "(\<forall>i d. nrows (mem d (pFrom d)) = arg_lines e + 2
            \<longrightarrow> step (schedules e i) (arg_lines e) d = None)
         \<and> final_grid e = None \<and> main e = Undefined"
proof -
  note ok = assms(1) [unfolded ok_env_def]
  have v: "set (snd (schedules e i)) = set (grid_threads numBlocks threadsPerBlock)" for i
    using ok by (simp add: valid_schedules_def schedule_of_def)
  have a: "\<forall>i d. nrows (mem d (pFrom d)) = arg_lines e + 2
            \<longrightarrow> step (schedules e i) (arg_lines e) d = None"
    using v assms(3) by (intro allI impI step_undefined) simp_all
  obtain g where g: "main_simulation e = (case simulation e (main_device e) g of
                                     None \<Rightarrow> Inl Undefined | Some final \<Rightarrow> Inr final)"
    using main_simulation_ok [OF assms(1)] assms(2) by auto
  have "nrows (mem (main_device e) (pFrom (main_device e))) = arg_lines e + 2"
    using ok by (simp add: main_device_ok)
  then have "simulation e (main_device e) g = None"
    using ok assms(3,4) by (intro simulation_undefined) simp_all
  then have "main_simulation e = Inl Undefined" using g by simp
  then show ?thesis using a by (simp add: final_grid_def main_def)
qed

theorem loop_undefined_below_launch_height_witness:
  "step (schedules (plain_env 1 1) 0) 1 (main_device (plain_env 1 1)) = None
   \<and> final_grid (plain_env 1 1) = None \<and> main (plain_env 1 1) = Undefined"
proof -
  have "nrows (mem (main_device (plain_env 1 1)) (pFrom (main_device (plain_env 1 1)))) = 1 + 2"
    by (simp add: main_device_ok plain_env_def)
  then show ?thesis
    using loop_undefined_below_launch_height [of "plain_env 1 1"] ok_plain_env [of 1 1]
    by (simp add: plain_env_def launch_height_eq)
qed

section \<open>Claims about whole runs\<close>

text \<open>
  C8, at the failing input.  Two runs with the same seed, \<open>lines = 131072\<close> and one
  iteration, which differ in what the device memory of the destination held in the cell
  \<open>(0, 0)\<close> when \<^verbatim>\<open>cudaMalloc\<close> handed it out, both complete, and their final grids
  hold the same in every interior cell, so the bytes of the interior are the same.  But
  the halo cell \<open>(0, 0)\<close> of each final grid is what the device memory held, and the
  bytes of which the two digests are taken, the first \<open>lines\<close> bytes of the buffer,
  differ; the digest strings that are printed differ whenever MD5 tells the two byte
  sequences apart.
\<close>

theorem digests_differ_between_runs:
  assumes "ok_env e1" "ok_env e2"
    and "arg_lines e1 = launch_height" "arg_lines e2 = launch_height"
    and "arg_iterations e1 = 1" "arg_iterations e2 = 1" "rng e1 = rng e2"
    and "fresh_to e1 (0, 0) \<noteq> fresh_to e2 (0, 0)"
  shows "\<exists>g1 g2 h1 h2. final_grid e1 = Some g1 \<and> final_grid e2 = Some g2
           \<and> same_on (interior launch_height) g1 g2
           \<and> interior_bytes g1 launch_height = interior_bytes g2 launch_height
           \<and> cells g1 (0, 0) = fresh_to e1 (0, 0) \<and> cells g2 (0, 0) = fresh_to e2 (0, 0)
           \<and> raw_bytes g1 (size_t launch_height) \<noteq> raw_bytes g2 (size_t launch_height)
           \<and> getMD5DigestStr (md5 e1) g1 (size_t launch_height) = Some h1
           \<and> getMD5DigestStr (md5 e2) g2 (size_t launch_height) = Some h2
           \<and> main e1 = Exit 0 (report h1 (elapsed e1)) \<and> main e2 = Exit 0 (report h2 (elapsed e2))
           \<and> ((\<exists>i < MD5_DIGEST_LENGTH. md5 e1 (raw_bytes g1 (size_t launch_height)) i
                                        \<noteq> md5 e2 (raw_bytes g2 (size_t launch_height)) i)
                \<longrightarrow> h1 \<noteq> h2)"
proof -
  let ?n = "size_t launch_height"
  obtain g1 where g1: "final_grid e1 = Some g1" "cells g1 (0, 0) = fresh_to e1 (0, 0)"
      "getMD5DigestStr (md5 e1) g1 ?n
         = Some (concat (map (\<lambda>i. hex_byte (md5 e1 (raw_bytes g1 ?n) i)) [0..<MD5_DIGEST_LENGTH]))"
      "main e1 = Exit 0 (report (concat (map (\<lambda>i. hex_byte (md5 e1 (raw_bytes g1 ?n) i))
                        [0..<MD5_DIGEST_LENGTH])) (elapsed e1))"
    using one_iteration_main [OF assms(1,3,5)] by blast
  obtain g2 where g2: "final_grid e2 = Some g2" "cells g2 (0, 0) = fresh_to e2 (0, 0)"
      "getMD5DigestStr (md5 e2) g2 ?n
         = Some (concat (map (\<lambda>i. hex_byte (md5 e2 (raw_bytes g2 ?n) i)) [0..<MD5_DIGEST_LENGTH]))"
      "main e2 = Exit 0 (report (concat (map (\<lambda>i. hex_byte (md5 e2 (raw_bytes g2 ?n) i))
                        [0..<MD5_DIGEST_LENGTH])) (elapsed e2))"
    using one_iteration_main [OF assms(2,4,6)] by blast
  let ?h1 = "concat (map (\<lambda>i. hex_byte (md5 e1 (raw_bytes g1 ?n) i)) [0..<MD5_DIGEST_LENGTH])"
  let ?h2 = "concat (map (\<lambda>i. hex_byte (md5 e2 (raw_bytes g2 ?n) i)) [0..<MD5_DIGEST_LENGTH])"
  have same: "same_on (interior launch_height) g1 g2"
    using two_runs [OF assms(1-4) _ assms(7)] assms(5,6) g1(1) g2(1) by auto
  have ib: "interior_bytes g1 launch_height = interior_bytes g2 launch_height"
    using same by (rule interior_bytes_cong)
  have ne: "raw_bytes g1 ?n \<noteq> raw_bytes g2 ?n"
    by (rule raw_bytes_first) (use g1(2) g2(2) assms(8) in \<open>simp_all add: size_t_def launch_height_eq\<close>)
  have d: "(\<exists>i < MD5_DIGEST_LENGTH. md5 e1 (raw_bytes g1 ?n) i \<noteq> md5 e2 (raw_bytes g2 ?n) i)
             \<longrightarrow> ?h1 \<noteq> ?h2"
    using digest_inj [of "md5 e1 (raw_bytes g1 ?n)" MD5_DIGEST_LENGTH "md5 e2 (raw_bytes g2 ?n)"]
    by blast
  show ?thesis
    by (intro exI [of _ g1] exI [of _ g2] exI [of _ ?h1] exI [of _ ?h2] conjI
        g1 g2 same ib ne d)
qed

theorem digests_differ_between_runs_witness:
  "\<exists>g1 g2 h1 h2.
       final_grid ((plain_env 131072 1)\<lparr>md5 := (\<lambda>bytes i. hd bytes)\<rparr>) = Some g1
     \<and> final_grid ((plain_env 131072 1)\<lparr>fresh_to := (\<lambda>p. 1), md5 := (\<lambda>bytes i. hd bytes)\<rparr>) = Some g2
     \<and> same_on (interior launch_height) g1 g2
     \<and> interior_bytes g1 launch_height = interior_bytes g2 launch_height
     \<and> main ((plain_env 131072 1)\<lparr>md5 := (\<lambda>bytes i. hd bytes)\<rparr>) = Exit 0 (report h1 ''0.0'')
     \<and> main ((plain_env 131072 1)\<lparr>fresh_to := (\<lambda>p. 1), md5 := (\<lambda>bytes i. hd bytes)\<rparr>)
          = Exit 0 (report h2 ''0.0'')
     \<and> h1 \<noteq> h2"
proof -
  let ?e1 = "(plain_env 131072 1)\<lparr>md5 := (\<lambda>bytes i. hd bytes)\<rparr>"
  let ?e2 = "(plain_env 131072 1)\<lparr>fresh_to := (\<lambda>p. 1), md5 := (\<lambda>bytes i. hd bytes)\<rparr>"
  let ?n = "size_t launch_height"
  have ok: "ok_env ?e1" "ok_env ?e2"
    using ok_plain_env [of 131072 1] by (simp_all add: ok_env_def)
  have hyp: "arg_lines ?e1 = launch_height" "arg_lines ?e2 = launch_height"
    "arg_iterations ?e1 = 1" "arg_iterations ?e2 = 1" "rng ?e1 = rng ?e2"
    "fresh_to ?e1 (0, 0) \<noteq> fresh_to ?e2 (0, 0)"
    by (simp_all add: plain_env_def launch_height_eq)
  obtain g1 g2 h1 h2 where r: "final_grid ?e1 = Some g1" "final_grid ?e2 = Some g2"
      "same_on (interior launch_height) g1 g2"
      "interior_bytes g1 launch_height = interior_bytes g2 launch_height"
      "cells g1 (0, 0) = fresh_to ?e1 (0, 0)" "cells g2 (0, 0) = fresh_to ?e2 (0, 0)"
      "main ?e1 = Exit 0 (report h1 (elapsed ?e1))" "main ?e2 = Exit 0 (report h2 (elapsed ?e2))"
      "(\<exists>i < MD5_DIGEST_LENGTH. md5 ?e1 (raw_bytes g1 ?n) i \<noteq> md5 ?e2 (raw_bytes g2 ?n) i)
         \<longrightarrow> h1 \<noteq> h2"
    using digests_differ_between_runs [OF ok hyp] by blast
  have pos: "0 < ?n" by (simp add: size_t_def launch_height_eq)
  have hd: "hd (raw_bytes g ?n) = cells g (0, 0)" for g
    using pos unfolding raw_bytes_def by (simp add: hd_map)
  have "md5 ?e1 (raw_bytes g1 ?n) 0 \<noteq> md5 ?e2 (raw_bytes g2 ?n) 0"
    using r(5,6) by (simp add: hd plain_env_def)
  moreover have "0 < MD5_DIGEST_LENGTH" by (simp add: MD5_DIGEST_LENGTH_def)
  ultimately have "h1 \<noteq> h2" using r(9) by blast
  moreover have "elapsed ?e1 = ''0.0''" "elapsed ?e2 = ''0.0''" by (simp_all add: plain_env_def)
  ultimately show ?thesis using r(1-4,7,8) by metis
qed

text \<open>
  C10 as stated fails: in a run with \<open>lines = 131072\<close> and one iteration in which the
  device memory of the destination held the byte 9, the final grid holds 9 in the halo
  cell \<open>(0, 0)\<close>: \<open>simulate\<close> does not write the halo, and \<open>boundary\<close> has not run on
  this buffer.
\<close>

theorem fresh_memory_reaches_final_grid:
  "\<exists>g. final_grid ((plain_env 131072 1)\<lparr>fresh_to := (\<lambda>p. 9)\<rparr>) = Some g
     \<and> in_buffer g (0, 0) \<and> cells g (0, 0) = 9 \<and> \<not> binary g"
proof -
  let ?e = "(plain_env 131072 1)\<lparr>fresh_to := (\<lambda>p. 9)\<rparr>"
  obtain g where g: "final_grid ?e = Some g" "nrows g = launch_height + 2"
      "cells g (0, 0) = fresh_to ?e (0, 0)"
    using one_iteration [of ?e] ok_plain_env [of 131072 1]
    by (auto simp: ok_env_fresh_to) (auto simp: plain_env_def launch_height_eq)
  have i: "in_buffer g (0, 0)"
    using g(2) by (simp add: in_buffer_def launch_height_eq XSIZE_def)
  have c: "cells g (0, 0) = 9" using g(3) by (simp add: plain_env_def)
  have "\<not> binary g"
  proof
    assume "binary g"
    then have "cells g (0, 0) = 0 \<or> cells g (0, 0) = 1" using i unfolding binary_def by blast
    then show False by (simp add: c)
  qed
  with g(1) i c show ?thesis by blast
qed

text \<open>
  C10, amended.  \<open>initConfig\<close> produces a grid of zeros and ones; a launch of
  \<open>simulate\<close> and a launch of \<open>boundary\<close>, under any schedule, and so a step of the loop,
  map buffers that hold only 0 and 1 to buffers that hold only 0 and 1; hence the final
  grid of a run holds only 0 and 1, provided the device memory of the destination did
  when \<^verbatim>\<open>cudaMalloc\<close> handed it out.
\<close>

theorem cells_stay_binary:
  "(\<exists>g. initConfig r (Ptr (calloc (lines + 2))) lines = Some (Ptr g) \<and> binary g)
   \<and> (launch_simulate sched from to lines = Some to' \<longrightarrow> binary to \<longrightarrow> binary to')
   \<and> (launch_boundary sched buf lines = Some buf' \<longrightarrow> binary buf \<longrightarrow> binary buf')
   \<and> (step sc lines d = Some d' \<longrightarrow> binary (fst (roles d)) \<longrightarrow> binary (snd (roles d))
        \<longrightarrow> binary (fst (roles d')) \<and> binary (snd (roles d')))
   \<and> (final_grid e = Some g' \<longrightarrow> (\<forall>p. fresh_to e p = 0 \<or> fresh_to e p = 1) \<longrightarrow> binary g')"
  using initConfig_binary [of r lines] launch_simulate_binary [of sched "from" to lines to']
    launch_boundary_binary [of sched buf lines buf'] step_binary [of sc lines d d']
    final_grid_binary [of e g']
  by blast

theorem cells_stay_binary_witness:
  "(\<exists>g. initConfig (\<lambda>seed k. 0) (Ptr (calloc (131072 + 2))) 131072 = Some (Ptr g) \<and> binary g)
   \<and> (\<exists>to'. launch_simulate (grid_threads numBlocks threadsPerBlock) (calloc 131074) (calloc 131074) 131072
           = Some to' \<and> binary to')
   \<and> (\<exists>buf'. launch_boundary (grid_threads numBlocks threadsPerBlock) (calloc 131074) 131072 = Some buf'
           \<and> binary buf')
   \<and> (\<exists>d'. step (grid_threads numBlocks threadsPerBlock, grid_threads numBlocks threadsPerBlock) 131072
             (main_device (plain_env 131072 1)) = Some d'
           \<and> binary (fst (roles d')) \<and> binary (snd (roles d')))
   \<and> (\<exists>g'. final_grid (plain_env 1 0) = Some g' \<and> binary g')"
proof -
  let ?G = "grid_threads numBlocks threadsPerBlock"
  let ?D = "main_device (plain_env 131072 1)"
  have z: "binary (calloc n)" for n by (simp add: binary_def calloc_def)
  have L: "launch_height = 131072" by (rule launch_height_eq)
  obtain to' where t: "launch_simulate ?G (calloc 131074) (calloc 131074) 131072 = Some to'"
    using launch_simulate_succeeds [of ?G 131072 "calloc 131074" "calloc 131074"]
    by (auto simp: L calloc_def)
  obtain buf' where b: "launch_boundary ?G (calloc 131074) 131072 = Some buf'"
    using launch_boundary_torus [of ?G 131072 "calloc 131074"] by (auto simp: L calloc_def)
  have r: "roles ?D = (calloc 131074, calloc 131074)"
    by (simp add: roles_def main_device_ok plain_env_def calloc_def)
  have ne: "pFrom ?D \<noteq> pTo ?D" by (simp add: main_device_ok plain_env_def)
  have "\<exists>S' T'. spec_step (?G, ?G) launch_height (calloc 131074, calloc 131074) = Some (T', S')"
    using spec_step_closed [of "(?G, ?G)" "calloc 131074" "calloc 131074"]
    by (auto simp: L calloc_def binary_on_def)
  then obtain d' where d: "step (?G, ?G) 131072 ?D = Some d'"
    using step_roles(1) [OF ne, of "(?G, ?G)" 131072] unfolding r L by auto
  obtain g' where g: "final_grid (plain_env 1 0) = Some g'"
    using main_zero [of "plain_env 1 0"] by (auto simp: plain_env_def)
  show ?thesis
    using cells_stay_binary [of "\<lambda>seed k. 0" 131072 ?G "calloc 131074" "calloc 131074" to'
        "calloc 131074" buf' "(?G, ?G)" ?D d' "plain_env 1 0" g'] t b d g z r
    by (simp add: plain_env_def)
qed

end
